theory Spec2Isabelle
  imports Main "HOL-Library.Sublist" "HOL-Library.Multiset"
begin

section \<open>Strings as the error classifier uses them\<close>

text \<open>
  A JavaScript string is modelled as a \<^typ>\<open>string\<close> (a list of 8-bit characters),
  so the model covers ASCII text. \<open>String.prototype.toLowerCase\<close> maps the letters
  A to Z to a to z and leaves every other character alone; \<open>String.prototype.includes\<close>
  (here \<open>str_includes\<close>) is the contiguous-substring test.
\<close>

definition toLowerChar :: "char \<Rightarrow> char" where
  "toLowerChar c =
     (let n = (of_char c :: nat) in if 65 \<le> n \<and> n \<le> 90 then char_of (n + 32) else c)"

definition toLowerCase :: "string \<Rightarrow> string" where
  "toLowerCase s = map toLowerChar s"

fun str_includes :: "string \<Rightarrow> string \<Rightarrow> bool" where
  "str_includes [] sub = (sub = [])"
| "str_includes (c # cs) sub = (prefix sub (c # cs) \<or> str_includes cs sub)"

section \<open>Error handler (src/error/error-handler.ts, src/error/types.ts)\<close>

datatype ErrorCategory = Authentication | Network | Browser | Parsing | Webhook | Config

text \<open>\<open>ErrorAction\<close>: the delay of a retry is in milliseconds, as in the source.\<close>

datatype ErrorAction = Retry nat | Skip | Fallback string | Fatal int

text \<open>
  \<open>ErrorContext\<close>: \<open>attempt\<close> and \<open>maxAttempts\<close> are attempt counters, modelled as
  natural numbers; the time stamp and the session state play no part in the decisions.
\<close>

record ErrorContext =
  operation :: string
  attempt :: nat
  maxAttempts :: nat

text \<open>A JavaScript \<open>Error\<close> object: the two fields the classifier reads.\<close>

record js_error =
  name :: string
  message :: string

definition categorizeError :: "js_error \<Rightarrow> ErrorCategory" where
  "categorizeError error =
     (let msg = toLowerCase (message error); nm = toLowerCase (name error) in
      if str_includes msg ''authentication'' \<or> str_includes msg ''login'' \<or>
         str_includes msg ''credential'' \<or> str_includes msg ''unauthorized'' \<or>
         str_includes msg ''401''
      then Authentication
      else if str_includes msg ''network'' \<or> str_includes msg ''timeout'' \<or>
         str_includes msg ''econnrefused'' \<or> str_includes msg ''enotfound'' \<or>
         str_includes msg ''dns'' \<or> str_includes msg ''proxy'' \<or>
         str_includes nm ''networkerror''
      then Network
      else if str_includes msg ''browser'' \<or> str_includes msg ''page'' \<or>
         str_includes msg ''navigation'' \<or> str_includes msg ''element not found'' \<or>
         str_includes msg ''selector'' \<or> str_includes msg ''playwright''
      then Browser
      else if str_includes msg ''parse'' \<or> str_includes msg ''invalid date'' \<or>
         str_includes msg ''invalid amount'' \<or> str_includes msg ''invalid transaction type'' \<or>
         str_includes msg ''missing required fields''
      then Parsing
      else if str_includes msg ''webhook'' \<or> str_includes msg ''http request failed'' \<or>
         (str_includes msg ''fetch'' \<and> str_includes msg ''failed'')
      then Webhook
      else if str_includes msg ''config'' \<or> str_includes msg ''validation'' \<or>
         str_includes msg ''required field''
      then Config
      else Browser)"

definition isRecoverable :: "ErrorCategory \<Rightarrow> ErrorContext \<Rightarrow> bool" where
  "isRecoverable category context =
     (if category = Config then False
      else if attempt context \<ge> maxAttempts context then False
      else True)"

definition determineAction :: "ErrorCategory \<Rightarrow> ErrorContext \<Rightarrow> bool \<Rightarrow> ErrorAction" where
  "determineAction category context recoverable =
     (if \<not> recoverable then
        (if category = Config then Fatal 1 else Skip)
      else
        (case category of
           Authentication \<Rightarrow> Retry 30000
         | Network \<Rightarrow> Retry (min (2 ^ attempt context * 1000) 60000)
         | Browser \<Rightarrow> (if attempt context < 3 then Fallback ''next-browser'' else Skip)
         | Parsing \<Rightarrow> Skip
         | Webhook \<Rightarrow> Retry (min (2 ^ attempt context * 1000) 30000)
         | Config \<Rightarrow> Skip))"

text \<open>\<open>handleError\<close>: logging apart, the action for the category and its recoverability.\<close>

definition handleError :: "js_error \<Rightarrow> ErrorContext \<Rightarrow> ErrorAction" where
  "handleError error context =
     (let category = categorizeError error;
          recoverable = isRecoverable category context
      in determineAction category context recoverable)"

section \<open>The classification as an ordered table of markers\<close>

text \<open>
  An ordered list of tests, each with its category: the first test that holds decides,
  and the default category stands when none holds.
\<close>

fun first_match :: "(('a \<Rightarrow> bool) \<times> 'c) list \<Rightarrow> 'c \<Rightarrow> 'a \<Rightarrow> 'c" where
  "first_match [] dflt x = dflt"
| "first_match ((test, c) # rules) dflt x = (if test x then c else first_match rules dflt x)"

definition any_marker :: "string list \<Rightarrow> string \<Rightarrow> bool" where
  "any_marker markers d = list_ex (str_includes d) markers"

text \<open>
  The specification's table (section 4.3), over the lower-cased failure description.
  The specification's category names ExecutionEnvironment, Delivery and Configuration
  are the code's \<open>Browser\<close>, \<open>Webhook\<close> and \<open>Config\<close>.
\<close>

definition spec_rules :: "((string \<Rightarrow> bool) \<times> ErrorCategory) list" where
  "spec_rules =
     [(any_marker [''authentication'', ''login'', ''credential'', ''unauthorized'', ''401''],
       Authentication),
      (any_marker [''network'', ''timeout'', ''connection refused'', ''not found'', ''dns'',
                   ''proxy''],
       Network),
      (any_marker [''browser'', ''page'', ''navigation'', ''element not found'', ''selector''],
       Browser),
      (any_marker [''parse'', ''invalid date'', ''invalid amount'', ''invalid transaction type'',
                   ''missing required fields''],
       Parsing),
      (\<lambda>d. any_marker [''webhook'', ''http request failed''] d
            \<or> (str_includes d ''fetch'' \<and> str_includes d ''failed''),
       Webhook),
      (any_marker [''config'', ''validation'', ''required field''], Config)]"

definition spec_classify :: "string \<Rightarrow> ErrorCategory" where
  "spec_classify d = first_match spec_rules Browser d"

text \<open>
  The table the code applies, over the lower-cased message and the lower-cased error
  name: the network markers are the error codes \<open>econnrefused\<close> and \<open>enotfound\<close>, an
  error name containing \<open>networkerror\<close> is a network failure too, and \<open>playwright\<close> is
  a browser marker.
\<close>

definition code_rules :: "((string \<times> string \<Rightarrow> bool) \<times> ErrorCategory) list" where
  "code_rules =
     [(\<lambda>(msg, nm). any_marker [''authentication'', ''login'', ''credential'', ''unauthorized'',
                               ''401''] msg,
       Authentication),
      (\<lambda>(msg, nm). any_marker [''network'', ''timeout'', ''econnrefused'', ''enotfound'', ''dns'',
                               ''proxy''] msg
                    \<or> str_includes nm ''networkerror'',
       Network),
      (\<lambda>(msg, nm). any_marker [''browser'', ''page'', ''navigation'', ''element not found'',
                               ''selector'', ''playwright''] msg,
       Browser),
      (\<lambda>(msg, nm). any_marker [''parse'', ''invalid date'', ''invalid amount'',
                               ''invalid transaction type'', ''missing required fields''] msg,
       Parsing),
      (\<lambda>(msg, nm). any_marker [''webhook'', ''http request failed''] msg
                    \<or> (str_includes msg ''fetch'' \<and> str_includes msg ''failed''),
       Webhook),
      (\<lambda>(msg, nm). any_marker [''config'', ''validation'', ''required field''] msg, Config)]"

definition code_classify :: "string \<Rightarrow> string \<Rightarrow> ErrorCategory" where
  "code_classify msg nm = first_match code_rules Browser (msg, nm)"

section \<open>Array reads\<close>

text \<open>
  Reading a JavaScript array outside its bounds gives \<open>undefined\<close> and does not raise;
  \<open>None\<close> stands for \<open>undefined\<close>.
\<close>

definition js_index :: "'a list \<Rightarrow> nat \<Rightarrow> 'a option" where
  "js_index xs i = (if i < length xs then Some (xs ! i) else None)"

section \<open>Rotation pools (src/rotation)\<close>

datatype BrowserType = chromium | chrome | edge | brave

subsection \<open>BrowserPool\<close>

record BrowserPool =
  browsers :: "BrowserType list"
  pool_currentIndex :: nat

definition BrowserPool_new :: "BrowserType list \<Rightarrow> js_error + BrowserPool" where
  "BrowserPool_new bs =
     (if length bs = 0
      then Inl \<lparr>name = ''Error'', message = ''Browser pool must have at least one browser''\<rparr>
      else Inr \<lparr>browsers = bs, pool_currentIndex = 0\<rparr>)"

definition getNextBrowser :: "BrowserPool \<Rightarrow> BrowserType option \<times> BrowserPool" where
  "getNextBrowser p =
     (let browser = js_index (browsers p) (pool_currentIndex p);
          p' = p\<lparr>pool_currentIndex := (pool_currentIndex p + 1) mod length (browsers p)\<rparr>
      in (browser, p'))"

definition BrowserPool_reset :: "BrowserPool \<Rightarrow> BrowserPool" where
  "BrowserPool_reset p = p\<lparr>pool_currentIndex := 0\<rparr>"

definition BrowserPool_size :: "BrowserPool \<Rightarrow> nat" where
  "BrowserPool_size p = length (browsers p)"

text \<open>The outputs of \<open>n\<close> successive calls of \<open>getNextBrowser\<close>, first call first.\<close>

fun browser_calls :: "nat \<Rightarrow> BrowserPool \<Rightarrow> BrowserType option list" where
  "browser_calls 0 p = []"
| "browser_calls (Suc n) p = (let (b, p') = getNextBrowser p in b # browser_calls n p')"

text \<open>The calls \<open>j, \<dots>, j + n - 1\<close> out of a list of outputs.\<close>

definition calls_block :: "nat \<Rightarrow> nat \<Rightarrow> 'a list \<Rightarrow> 'a list" where
  "calls_block j n outs = take n (drop j outs)"

subsection \<open>UserAgentRotator\<close>

definition DEFAULT_USER_AGENTS :: "BrowserType \<Rightarrow> string list" where
  "DEFAULT_USER_AGENTS b =
     (case b of
        chromium \<Rightarrow> [''Mozilla/5.0 (Windows NT 10.0; Win64; x64) AppleWebKit/537.36 (KHTML, like Gecko) Chrome/120.0.0.0 Safari/537.36'']
      | chrome \<Rightarrow> [''Mozilla/5.0 (Windows NT 10.0; Win64; x64) AppleWebKit/537.36 (KHTML, like Gecko) Chrome/120.0.0.0 Safari/537.36'']
      | edge \<Rightarrow> [''Mozilla/5.0 (Windows NT 10.0; Win64; x64) AppleWebKit/537.36 (KHTML, like Gecko) Chrome/120.0.0.0 Safari/537.36 Edg/120.0.0.0'']
      | brave \<Rightarrow> [''Mozilla/5.0 (Windows NT 10.0; Win64; x64) AppleWebKit/537.36 (KHTML, like Gecko) Chrome/120.0.0.0 Safari/537.36''])"

record UserAgentRotator =
  userAgents :: "string list"
  ua_currentIndex :: nat

text \<open>The constructor's argument is optional: \<open>None\<close> is a call without it.\<close>

definition UserAgentRotator_new :: "string list option \<Rightarrow> UserAgentRotator" where
  "UserAgentRotator_new uas =
     \<lparr>userAgents = (case uas of None \<Rightarrow> [] | Some us \<Rightarrow> if length us > 0 then us else []),
      ua_currentIndex = 0\<rparr>"

text \<open>
  \<open>getDefaultUserAgent\<close>: the argument is \<open>None\<close> for a value that is no key of the table
  (the source falls back to chromium's first entry then). \<open>None\<close> as a result is
  \<open>undefined\<close>.
\<close>

definition getDefaultUserAgent :: "BrowserType option \<Rightarrow> string option" where
  "getDefaultUserAgent browserType =
     (case browserType of
        None \<Rightarrow> js_index (DEFAULT_USER_AGENTS chromium) 0
      | Some b \<Rightarrow>
          (let defaultAgents = DEFAULT_USER_AGENTS b in
           if length defaultAgents = 0 then js_index (DEFAULT_USER_AGENTS chromium) 0
           else js_index defaultAgents 0))"

definition getNextUserAgent ::
  "BrowserType option \<Rightarrow> UserAgentRotator \<Rightarrow> string option \<times> UserAgentRotator" where
  "getNextUserAgent browserType r =
     (if length (userAgents r) > 0 then
        (let userAgent = js_index (userAgents r) (ua_currentIndex r);
             r' = r\<lparr>ua_currentIndex := (ua_currentIndex r + 1) mod length (userAgents r)\<rparr>
         in (userAgent, r'))
      else (getDefaultUserAgent browserType, r))"

definition UserAgentRotator_reset :: "UserAgentRotator \<Rightarrow> UserAgentRotator" where
  "UserAgentRotator_reset r = r\<lparr>ua_currentIndex := 0\<rparr>"

text \<open>
  The outputs of successive calls of \<open>getNextUserAgent\<close>, one call for each browser
  type of the list.
\<close>

fun user_agent_calls :: "BrowserType option list \<Rightarrow> UserAgentRotator \<Rightarrow> string option list" where
  "user_agent_calls [] r = []"
| "user_agent_calls (b # bs) r =
     (let (u, r') = getNextUserAgent b r in u # user_agent_calls bs r')"

subsection \<open>ProxyRotator\<close>

record ProxyConfig =
  server :: string
  username :: "string option"
  password :: "string option"

record ProxyRotator =
  proxies :: "ProxyConfig list"
  currentIndex :: nat
  failedProxies :: "string set"

definition ProxyRotator_new :: "ProxyConfig list \<Rightarrow> ProxyRotator" where
  "ProxyRotator_new ps = \<lparr>proxies = ps, currentIndex = 0, failedProxies = {}\<rparr>"

text \<open>\<open>getProxyKey\<close>: the template \<open>server:username\<close>, with the empty string for no user name.\<close>

definition getProxyKey :: "ProxyConfig \<Rightarrow> string" where
  "getProxyKey proxy =
     server proxy @ '':'' @ (case username proxy of None \<Rightarrow> [] | Some u \<Rightarrow> u)"

text \<open>
  The \<open>while\<close> loop of \<open>getNextProxy\<close>, entered with \<open>attempts\<close>. A read outside the
  array gives \<open>undefined\<close>, and \<open>getProxyKey\<close> of it raises a \<open>TypeError\<close>, after the
  index has been advanced.
\<close>

function getNextProxy_loop ::
  "nat \<Rightarrow> ProxyRotator \<Rightarrow> (js_error + ProxyConfig option) \<times> ProxyRotator" where
  "getNextProxy_loop attempts r =
     (if attempts < length (proxies r) then
        (let proxy = js_index (proxies r) (currentIndex r);
             r' = r\<lparr>currentIndex := (currentIndex r + 1) mod length (proxies r)\<rparr>
         in case proxy of
              None \<Rightarrow>
                (Inl \<lparr>name = ''TypeError'',
                      message = ''Cannot read properties of undefined (reading server)''\<rparr>, r')
            | Some p \<Rightarrow>
                if getProxyKey p \<notin> failedProxies r' then (Inr (Some p), r')
                else getNextProxy_loop (attempts + 1) r')
      else (Inr None, r))"
  by pat_completeness auto
termination
  by (relation "measure (\<lambda>(attempts, r). length (proxies r) - attempts)") auto

declare getNextProxy_loop.simps [simp del]

definition getNextProxy :: "ProxyRotator \<Rightarrow> (js_error + ProxyConfig option) \<times> ProxyRotator" where
  "getNextProxy r =
     (if length (proxies r) = 0 then (Inr None, r)
      else
        (let availableProxies = filter (\<lambda>proxy. getProxyKey proxy \<notin> failedProxies r) (proxies r)
         in if length availableProxies = 0 then (Inr None, r)
            else getNextProxy_loop 0 r))"

definition markProxyFailed :: "ProxyConfig \<Rightarrow> ProxyRotator \<Rightarrow> ProxyRotator" where
  "markProxyFailed proxy r = r\<lparr>failedProxies := insert (getProxyKey proxy) (failedProxies r)\<rparr>"

definition resetFailures :: "ProxyRotator \<Rightarrow> ProxyRotator" where
  "resetFailures r = r\<lparr>failedProxies := {}\<rparr>"

definition ProxyRotator_reset :: "ProxyRotator \<Rightarrow> ProxyRotator" where
  "ProxyRotator_reset r = r\<lparr>currentIndex := 0\<rparr>"

definition availableCount :: "ProxyRotator \<Rightarrow> nat" where
  "availableCount r =
     length (filter (\<lambda>proxy. getProxyKey proxy \<notin> failedProxies r) (proxies r))"

definition isProxyFailed :: "ProxyConfig \<Rightarrow> ProxyRotator \<Rightarrow> bool" where
  "isProxyFailed proxy r = (getProxyKey proxy \<in> failedProxies r)"

text \<open>
  A client of the rotator calls its methods in some order; \<open>proxy_calls\<close> runs such a
  sequence and collects what each \<open>getNextProxy\<close> returned.
\<close>

datatype proxy_call = GetNextProxy | MarkProxyFailed ProxyConfig | ResetFailures | Reset

fun proxy_calls ::
  "proxy_call list \<Rightarrow> ProxyRotator \<Rightarrow> (js_error + ProxyConfig option) list \<times> ProxyRotator" where
  "proxy_calls [] r = ([], r)"
| "proxy_calls (GetNextProxy # cs) r =
     (let (res, r') = getNextProxy r; (rest, r'') = proxy_calls cs r' in (res # rest, r''))"
| "proxy_calls (MarkProxyFailed p # cs) r = proxy_calls cs (markProxyFailed p r)"
| "proxy_calls (ResetFailures # cs) r = proxy_calls cs (resetFailures r)"
| "proxy_calls (Reset # cs) r = proxy_calls cs (ProxyRotator_reset r)"

section \<open>Values the components share\<close>

text \<open>
  \<open>a || d\<close> on an optional number: the default \<open>d\<close> replaces \<open>undefined\<close> and also
  the falsy number \<open>0\<close>.
\<close>

definition or_default :: "nat option \<Rightarrow> nat \<Rightarrow> nat" where
  "or_default v d = (case v of None \<Rightarrow> d | Some n \<Rightarrow> if n = 0 then d else n)"

text \<open>The decimal rendering of a number inside a template string.\<close>

fun string_of_nat :: "nat \<Rightarrow> string" where
  "string_of_nat n =
     (if n < 10 then [char_of (48 + n)]
      else string_of_nat (n div 10) @ [char_of (48 + n mod 10)])"

declare string_of_nat.simps [simp del]

text \<open>
  What a cycle does to the outside world, in the order it does it. Log lines are left
  out, except the call of the error handler, whose returned action is kept.
\<close>

datatype 'm effect =
    CreateSession "BrowserType option" "string option" "ProxyConfig option"
  | Login string
  | NavigateToMutationPage
  | Scrape
  | HttpPost string string "'m list"
  | Sleep nat
  | HandleError string js_error ErrorAction
  | Logout
  | CloseSession

section \<open>Webhook client (src/webhook/webhook-client.ts)\<close>

record WebhookConfig =
  url :: string
  retryAttempts :: "nat option"

text \<open>
  What \<open>fetch\<close> does with one request: the endpoint answers with a status and a status
  text, or the promise is rejected (a transport error).
\<close>

datatype fetch_result = Responded nat string | Rejected js_error

definition response_ok :: "nat \<Rightarrow> bool" where
  "response_ok status = (200 \<le> status \<and> status \<le> 299)"

text \<open>
  \<open>sendRequest\<close> posts the payload (time stamp, account, mutations) to the configured
  URL and raises unless the answer has a status of the 2xx range.
\<close>

definition sendRequest ::
  "WebhookConfig \<Rightarrow> fetch_result \<Rightarrow> 'm list \<Rightarrow> string \<Rightarrow> (js_error + unit) \<times> 'm effect list" where
  "sendRequest cfg answer mutations account =
     (case answer of
        Rejected e \<Rightarrow> (Inl e, [HttpPost (url cfg) account mutations])
      | Responded status statusText \<Rightarrow>
          if \<not> response_ok status
          then (Inl \<lparr>name = ''Error'',
                      message = ''Webhook request failed with status '' @ string_of_nat status
                                @ '': '' @ statusText\<rparr>,
                [HttpPost (url cfg) account mutations])
          else (Inr (), [HttpPost (url cfg) account mutations]))"

text \<open>
  \<open>calculateBackoff\<close>, in milliseconds. It is only called with an attempt number of at
  least 1 (the loop counts from 1), where the truncating subtraction of \<^typ>\<open>nat\<close> is
  the source's subtraction.
\<close>

definition calculateBackoff :: "nat \<Rightarrow> nat" where
  "calculateBackoff attempt_no = 2 ^ (attempt_no - 1) * 1000"

text \<open>
  The \<open>for\<close> loop of \<open>sendWithRetry\<close> and the \<open>throw\<close> after it, entered with the
  loop variable \<open>attempt\<close> (here \<open>attempt_no\<close>) and with \<open>lastError\<close>. The function
  \<open>endpoint\<close> gives the answer to the request of each attempt.
\<close>

function sendWithRetry_loop ::
  "WebhookConfig \<Rightarrow> (nat \<Rightarrow> fetch_result) \<Rightarrow> 'm list \<Rightarrow> string \<Rightarrow> nat \<Rightarrow> nat \<Rightarrow>
   js_error option \<Rightarrow> (js_error + unit) \<times> 'm effect list" where
  "sendWithRetry_loop cfg endpoint mutations account attempts attempt_no lastError =
     (if attempt_no \<le> attempts then
        (let (sent, posted) = sendRequest cfg (endpoint attempt_no) mutations account in
         case sent of
           Inr _ \<Rightarrow> (Inr (), posted)
         | Inl err \<Rightarrow>
             (let slept = (if attempt_no < attempts then [Sleep (calculateBackoff attempt_no)] else []);
                  (res, later) =
                    sendWithRetry_loop cfg endpoint mutations account attempts (attempt_no + 1) (Some err)
              in (res, posted @ slept @ later)))
      else
        (Inl \<lparr>name = ''Error'',
              message = ''Webhook delivery failed after '' @ string_of_nat attempts
                        @ '' attempts: ''
                        @ (case lastError of None \<Rightarrow> ''undefined'' | Some e \<Rightarrow> message e)\<rparr>,
         []))"
  by pat_completeness auto
termination
  by (relation "measure (\<lambda>(cfg, endpoint, mutations, account, attempts, attempt_no, lastError).
        attempts + 1 - attempt_no)") auto

declare sendWithRetry_loop.simps [simp del]

definition sendWithRetry ::
  "WebhookConfig \<Rightarrow> (nat \<Rightarrow> fetch_result) \<Rightarrow> 'm list \<Rightarrow> string \<Rightarrow> nat \<Rightarrow>
   (js_error + unit) \<times> 'm effect list" where
  "sendWithRetry cfg endpoint mutations account attempts =
     sendWithRetry_loop cfg endpoint mutations account attempts 1 None"

definition send ::
  "WebhookConfig \<Rightarrow> (nat \<Rightarrow> fetch_result) \<Rightarrow> 'm list \<Rightarrow> string \<Rightarrow>
   (js_error + unit) \<times> 'm effect list" where
  "send cfg endpoint mutations account =
     (let limit = or_default (retryAttempts cfg) 3
      in sendWithRetry cfg endpoint mutations account limit)"

section \<open>Scheduler (src/scheduler/scheduler.ts)\<close>

subsection \<open>Configuration and state\<close>

record Credentials =
  cred_username :: string
  cred_password :: string

record ProxySettings =
  enabled :: bool
  servers :: "ProxyConfig list"

record WebhookSettings =
  webhook_url :: string
  webhook_retryAttempts :: "nat option"

text \<open>The system configuration \<open>Config\<close>, without its logging settings.\<close>

record Config =
  cfg_credentials :: Credentials
  cfg_interval :: nat
  cfg_browsers :: "BrowserType list"
  cfg_userAgents :: "string list option"
  cfg_proxy :: "ProxySettings option"
  cfg_webhook :: "WebhookSettings option"

text \<open>Intervals and delays are milliseconds.\<close>

record SchedulerConfig =
  interval :: nat
  minInterval :: "nat option"

record CheckResult =
  success :: bool
  error :: "js_error option"

text \<open>
  The fields of the class. \<open>timerId\<close> is the handle of the timer set last, the webhook
  client is its configuration (it has no other state).
\<close>

record Scheduler =
  config :: SchedulerConfig
  timerId :: "nat option"
  checkInProgress :: bool
  stopped :: bool
  systemConfig :: Config
  browserPool :: BrowserPool
  userAgentRotator :: UserAgentRotator
  proxyRotator :: "ProxyRotator option"
  webhookClient :: "WebhookConfig option"

definition MIN_INTERVAL :: nat where
  "MIN_INTERVAL = 300000"

text \<open>
  The constructor. The message of its error also gives the minimum in minutes (a
  floating-point quotient), which is left out here. Of the components it creates, only
  the browser pool can raise.
\<close>

definition Scheduler_new :: "SchedulerConfig \<Rightarrow> Config \<Rightarrow> js_error + Scheduler" where
  "Scheduler_new schedulerConfig sys =
     (let minimum = or_default (minInterval schedulerConfig) MIN_INTERVAL in
      if interval schedulerConfig < minimum
      then Inl \<lparr>name = ''Error'',
                message = ''Interval must be at least '' @ string_of_nat minimum @ ''ms''\<rparr>
      else
        (case BrowserPool_new (cfg_browsers sys) of
           Inl e \<Rightarrow> Inl e
         | Inr pool \<Rightarrow>
             Inr \<lparr>config = schedulerConfig,
                  timerId = None,
                  checkInProgress = False,
                  stopped = False,
                  systemConfig = sys,
                  browserPool = pool,
                  userAgentRotator = UserAgentRotator_new (cfg_userAgents sys),
                  proxyRotator =
                    (case cfg_proxy sys of
                       None \<Rightarrow> None
                     | Some settings \<Rightarrow>
                         if enabled settings \<and> length (servers settings) > 0
                         then Some (ProxyRotator_new (servers settings)) else None),
                  webhookClient =
                    (case cfg_webhook sys of
                       None \<Rightarrow> None
                     | Some w \<Rightarrow>
                         if webhook_url w \<noteq> []
                         then Some \<lparr>url = webhook_url w, retryAttempts = webhook_retryAttempts w\<rparr>
                         else None)\<rparr>))"

subsection \<open>One check: \<open>performCheck\<close>\<close>

text \<open>
  What the collaborators of one cycle do: whether creating the session, the login and
  the navigation to the mutation page raise, what scraping returns or raises, the
  parser of the scraped rows (\<open>DataParser.parseAll\<close> collects the rows that parse and
  does not raise), and the answers of the webhook endpoint. \<open>SessionManager.logout\<close> and
  \<open>SessionManager.closeSession\<close> catch their own errors and never raise.
\<close>

record ('r, 'm) collaborators =
  createSession_error :: "js_error option"
  login_error :: "js_error option"
  navigate_error :: "js_error option"
  scrape_result :: "js_error + 'r list"
  parseAll :: "'r list \<Rightarrow> 'm list"
  webhook_endpoint :: "nat \<Rightarrow> fetch_result"

record BrowserSession =
  session_browserType :: BrowserType
  session_userAgent :: "string option"
  session_proxy :: "string option"

text \<open>
  \<open>SessionManager.createSession\<close>: launching the browser reads the browser type, which
  raises a \<open>TypeError\<close> on \<open>undefined\<close>; the session keeps the proxy's server address.
\<close>

definition createSession ::
  "('r, 'm) collaborators \<Rightarrow> BrowserType option \<Rightarrow> string option \<Rightarrow> ProxyConfig option \<Rightarrow>
   (js_error + BrowserSession) \<times> 'm effect list" where
  "createSession env browserType userAgent picked =
     (case browserType of
        None \<Rightarrow>
          (Inl \<lparr>name = ''TypeError'',
                message = ''Cannot read properties of undefined (reading toLowerCase)''\<rparr>,
           [CreateSession browserType userAgent picked])
      | Some b \<Rightarrow>
          (case createSession_error env of
             Some e \<Rightarrow> (Inl e, [CreateSession browserType userAgent picked])
           | None \<Rightarrow>
               (Inr \<lparr>session_browserType = b, session_userAgent = userAgent,
                     session_proxy = map_option server picked\<rparr>,
                [CreateSession browserType userAgent picked])))"

text \<open>
  The webhook step of \<open>performCheck\<close>: the inner \<open>try\<close> with its \<open>catch\<close>, which hands
  the error to the error handler and goes on.
\<close>

definition deliver :: "('r, 'm) collaborators \<Rightarrow> Scheduler \<Rightarrow> 'm list \<Rightarrow> 'm effect list" where
  "deliver env s mutations =
     (case webhookClient s of
        None \<Rightarrow> []
      | Some client \<Rightarrow>
          if length mutations > 0 then
            (let (sent, posted) =
                   send client (webhook_endpoint env) mutations
                     (cred_username (cfg_credentials (systemConfig s)))
             in case sent of
                  Inr _ \<Rightarrow> posted
                | Inl e \<Rightarrow>
                    (let errorContext =
                           \<lparr>operation = ''webhook-delivery'', attempt = 1,
                            maxAttempts =
                              or_default
                                (case cfg_webhook (systemConfig s) of
                                   None \<Rightarrow> None
                                 | Some w \<Rightarrow> webhook_retryAttempts w) 3\<rparr>
                     in posted @ [HandleError ''webhook-delivery'' e (handleError e errorContext)]))
          else [])"

text \<open>
  The body of the outer \<open>try\<close>: the outcome, the session if it was created, the
  scheduler with its pools advanced, and the effects so far.
\<close>

definition performCheck_try ::
  "('r, 'm) collaborators \<Rightarrow> Scheduler \<Rightarrow>
   (js_error + unit) \<times> BrowserSession option \<times> Scheduler \<times> 'm effect list" where
  "performCheck_try env s =
     (let (browserType, pool') = getNextBrowser (browserPool s);
          (userAgent, rotator') = getNextUserAgent browserType (userAgentRotator s);
          s1 = s\<lparr>browserPool := pool', userAgentRotator := rotator'\<rparr>;
          (selected, proxies') =
            (case proxyRotator s1 of
               None \<Rightarrow> (Inr None, None)
             | Some pr \<Rightarrow> (let (res, pr') = getNextProxy pr in (res, Some pr')));
          s2 = s1\<lparr>proxyRotator := proxies'\<rparr>
      in case selected of
           Inl e \<Rightarrow> (Inl e, None, s2, [])
         | Inr picked \<Rightarrow>
             (case createSession env browserType userAgent picked of
                (Inl e, es1) \<Rightarrow> (Inl e, None, s2, es1)
              | (Inr session, es1) \<Rightarrow>
                  (let es2 = es1 @ [Login (cred_username (cfg_credentials (systemConfig s2)))] in
                   case login_error env of
                     Some e \<Rightarrow> (Inl e, Some session, s2, es2)
                   | None \<Rightarrow>
                       (let es3 = es2 @ [NavigateToMutationPage] in
                        case navigate_error env of
                          Some e \<Rightarrow> (Inl e, Some session, s2, es3)
                        | None \<Rightarrow>
                            (let es4 = es3 @ [Scrape] in
                             case scrape_result env of
                               Inl e \<Rightarrow> (Inl e, Some session, s2, es4)
                             | Inr rawMutations \<Rightarrow>
                                 (let mutations = parseAll env rawMutations;
                                      es5 = es4 @ deliver env s2 mutations
                                  in (Inr (), Some session, s2, es5 @ [Logout])))))))"

definition is_retry :: "ErrorAction \<Rightarrow> bool" where
  "is_retry action = (case action of Retry _ \<Rightarrow> True | _ \<Rightarrow> False)"

text \<open>
  \<open>performCheck\<close>: the \<open>try\<close> body, then the \<open>catch\<close> (error handler, marking of the
  proxy, re-throw) when the body raised, then the \<open>finally\<close> (closing the session if
  there is one).
\<close>

definition performCheck ::
  "('r, 'm) collaborators \<Rightarrow> Scheduler \<Rightarrow> (js_error + unit) \<times> Scheduler \<times> 'm effect list" where
  "performCheck env s =
     (let (outcome, session, s1, es) = performCheck_try env s;
          closing = (case session of None \<Rightarrow> [] | Some _ \<Rightarrow> [CloseSession])
      in case outcome of
           Inr _ \<Rightarrow> (Inr (), s1, es @ closing)
         | Inl e \<Rightarrow>
             (let action = handleError e
                    \<lparr>operation = ''mutation-check'', attempt = 1, maxAttempts = 3\<rparr>;
                  s2 =
                    (case (proxyRotator s1, session) of
                       (Some pr, Some sess) \<Rightarrow>
                         (case session_proxy sess of
                            Some srv \<Rightarrow>
                              if srv \<noteq> [] \<and> is_retry action
                                 \<and> str_includes (toLowerCase (message e)) ''network''
                              then s1\<lparr>proxyRotator :=
                                        Some (markProxyFailed
                                          \<lparr>server = srv, username = None, password = None\<rparr> pr)\<rparr>
                              else s1
                          | None \<Rightarrow> s1)
                     | _ \<Rightarrow> s1)
              in (Inl e, s2, es @ [HandleError ''mutation-check'' e action] @ closing)))"

subsection \<open>\<open>executeCheck\<close> and its guard\<close>

text \<open>
  An \<open>async\<close> function runs without interruption up to its first \<open>await\<close>, and again
  from the moment the awaited promise settles. \<open>executeCheck\<close> has one \<open>await\<close>, of
  \<open>performCheck\<close>; \<open>executeCheck_enter\<close> is the code before it (\<open>Some\<close> result: the call
  returns at once) and \<open>executeCheck_exit\<close> the code after it, with the \<open>finally\<close>.
\<close>

definition executeCheck_enter :: "Scheduler \<Rightarrow> CheckResult option \<times> Scheduler" where
  "executeCheck_enter s =
     (if checkInProgress s
      then (Some \<lparr>success = False,
                  error = Some \<lparr>name = ''Error'', message = ''Check already in progress''\<rparr>\<rparr>, s)
      else (None, s\<lparr>checkInProgress := True\<rparr>))"

definition executeCheck_exit :: "js_error + unit \<Rightarrow> Scheduler \<Rightarrow> CheckResult \<times> Scheduler" where
  "executeCheck_exit outcome s =
     (case outcome of
        Inr _ \<Rightarrow> (\<lparr>success = True, error = None\<rparr>, s\<lparr>checkInProgress := False\<rparr>)
      | Inl e \<Rightarrow> (\<lparr>success = False, error = Some e\<rparr>, s\<lparr>checkInProgress := False\<rparr>))"

text \<open>One call of \<open>executeCheck\<close> that nothing else interleaves with.\<close>

definition executeCheck ::
  "('r, 'm) collaborators \<Rightarrow> Scheduler \<Rightarrow> CheckResult \<times> Scheduler \<times> 'm effect list" where
  "executeCheck env s =
     (case executeCheck_enter s of
        (Some rejected, s') \<Rightarrow> (rejected, s', [])
      | (None, s1) \<Rightarrow>
          (let (outcome, s2, es) = performCheck env s1;
               (result, s3) = executeCheck_exit outcome s2
           in (result, s3, es)))"

subsection \<open>Valid cursors\<close>

text \<open>
  The cursors of the browser pool and of the proxy rotator are indices of their lists.
  The constructor establishes this and every check keeps it.
\<close>

definition pools_ok :: "Scheduler \<Rightarrow> bool" where
  "pools_ok s =
     (pool_currentIndex (browserPool s) < length (browsers (browserPool s))
      \<and> (case proxyRotator s of
           None \<Rightarrow> True
         | Some pr \<Rightarrow> currentIndex pr < length (proxies pr)))"

subsection \<open>Calls of \<open>executeCheck\<close> that overlap\<close>

text \<open>
  JavaScript runs one piece of code at a time. A call of \<open>executeCheck\<close> is two such
  pieces: \<open>Invoke\<close> is the call itself, which runs \<open>executeCheck_enter\<close> and, if the
  guard lets it pass, starts the body; \<open>BodyReturns env\<close> is the moment the body that
  is under way settles, where \<open>env\<close> says what its collaborators did. Other calls may
  happen in between. \<open>bodies_started\<close> and \<open>bodies_running\<close> count the bodies,
  \<open>returned\<close> collects the results of the calls in the order they return.
\<close>

datatype ('r, 'm) call_event = Invoke | BodyReturns "('r, 'm) collaborators"

record engine_run =
  engine :: Scheduler
  bodies_started :: nat
  bodies_running :: nat
  returned :: "CheckResult list"

definition engine_idle :: "Scheduler \<Rightarrow> engine_run" where
  "engine_idle s = \<lparr>engine = s, bodies_started = 0, bodies_running = 0, returned = []\<rparr>"

fun engine_step :: "('r, 'm) call_event \<Rightarrow> engine_run \<Rightarrow> engine_run" where
  "engine_step Invoke st =
     (case executeCheck_enter (engine st) of
        (Some rejected, s') \<Rightarrow> st\<lparr>engine := s', returned := returned st @ [rejected]\<rparr>
      | (None, s') \<Rightarrow>
          st\<lparr>engine := s', bodies_started := bodies_started st + 1,
             bodies_running := bodies_running st + 1\<rparr>)"
| "engine_step (BodyReturns env) st =
     (if bodies_running st = 0 then st
      else
        (let (outcome, s2, es) = performCheck env (engine st);
             (result, s3) = executeCheck_exit outcome s2
         in st\<lparr>engine := s3, bodies_running := bodies_running st - 1,
               returned := returned st @ [result]\<rparr>))"

definition engine_steps :: "('r, 'm) call_event list \<Rightarrow> engine_run \<Rightarrow> engine_run" where
  "engine_steps events st = fold engine_step events st"

text \<open>At most one body runs at any moment, and the flag is set exactly while one runs.\<close>

definition guard_inv :: "engine_run \<Rightarrow> bool" where
  "guard_inv st =
     (bodies_running st \<le> 1 \<and> (checkInProgress (engine st) \<longleftrightarrow> bodies_running st = 1))"

subsection \<open>The timer loop: \<open>start\<close>, \<open>stop\<close>, \<open>scheduleNextCheck\<close>\<close>

text \<open>
  The scheduler on the event loop, with a clock in milliseconds. \<open>timers\<close> are the
  pending timers (handle and due time); \<open>delays\<close> records the delay argument of each
  call of \<open>setTimeout\<close>; \<open>started_at\<close> records the time at which each timer callback
  began, which is the time the timer was due.
\<close>

record event_loop =
  sched :: Scheduler
  now :: nat
  timers :: "(nat \<times> nat) list"
  next_handle :: nat
  delays :: "nat list"
  started_at :: "nat list"

definition event_loop_new :: "Scheduler \<Rightarrow> nat \<Rightarrow> event_loop" where
  "event_loop_new s t =
     \<lparr>sched = s, now = t, timers = [], next_handle = 1, delays = [], started_at = []\<rparr>"

text \<open>
  The timers of Node.js: a delay above \<open>TIMEOUT_MAX\<close> or below 1 is set to 1
  millisecond. \<open>timer_delay\<close> is the delay the timer runs with.
\<close>

definition TIMEOUT_MAX :: nat where
  "TIMEOUT_MAX = 2147483647"

definition timer_delay :: "nat \<Rightarrow> nat" where
  "timer_delay delay = (if delay < 1 \<or> TIMEOUT_MAX < delay then 1 else delay)"

definition setTimeout :: "nat \<Rightarrow> event_loop \<Rightarrow> nat \<times> event_loop" where
  "setTimeout delay L =
     (next_handle L,
      L\<lparr>timers := timers L @ [(next_handle L, now L + timer_delay delay)],
        next_handle := next_handle L + 1,
        delays := delays L @ [delay]\<rparr>)"

definition clearTimeout :: "nat \<Rightarrow> event_loop \<Rightarrow> event_loop" where
  "clearTimeout h L = L\<lparr>timers := filter (\<lambda>t. fst t \<noteq> h) (timers L)\<rparr>"

definition scheduleNextCheck :: "nat \<Rightarrow> event_loop \<Rightarrow> event_loop" where
  "scheduleNextCheck delay L =
     (if stopped (sched L) then L
      else (let (h, L') = setTimeout delay L in L'\<lparr>sched := (sched L')\<lparr>timerId := Some h\<rparr>\<rparr>))"

definition start :: "event_loop \<Rightarrow> event_loop" where
  "start L =
     (if timerId (sched L) \<noteq> None then L
      else scheduleNextCheck 0 (L\<lparr>sched := (sched L)\<lparr>stopped := False\<rparr>\<rparr>))"

definition stop :: "event_loop \<Rightarrow> event_loop" where
  "stop L =
     (case timerId (sched L) of
        None \<Rightarrow> L
      | Some h \<Rightarrow>
          (let L1 = L\<lparr>sched := (sched L)\<lparr>stopped := True\<rparr>\<rparr>;
               L2 = clearTimeout h L1
           in L2\<lparr>sched := (sched L2)\<lparr>timerId := None\<rparr>\<rparr>))"

definition isRunning :: "Scheduler \<Rightarrow> bool" where
  "isRunning s = (timerId s \<noteq> None \<or> checkInProgress s)"

text \<open>The pending timer that is due first (the one set first among equals).\<close>

fun earliest :: "(nat \<times> nat) list \<Rightarrow> (nat \<times> nat) option" where
  "earliest [] = None"
| "earliest (t # ts) =
     (case earliest ts of
        None \<Rightarrow> Some t
      | Some u \<Rightarrow> if snd u < snd t then Some u else Some t)"

text \<open>
  The callback of the timer: it awaits \<open>executeCheck\<close> and then, unless the scheduler
  is stopped, schedules the next check after the configured interval
  (\<open>callback_continues\<close>). \<open>timer_fires\<close> is the due timer firing, up to the \<open>await\<close>
  of the body; a call that the guard rejects returns at once and the callback
  continues. \<open>check_completes d env\<close> is the body settling \<open>d\<close> milliseconds later.
\<close>

definition callback_continues :: "event_loop \<Rightarrow> event_loop" where
  "callback_continues L =
     (if \<not> stopped (sched L) then scheduleNextCheck (interval (config (sched L))) L else L)"

definition timer_fires :: "event_loop \<Rightarrow> event_loop" where
  "timer_fires L =
     (case earliest (timers L) of
        None \<Rightarrow> L
      | Some (h, due) \<Rightarrow>
          (let L1 = L\<lparr>now := max (now L) due,
                      timers := filter (\<lambda>t. fst t \<noteq> h) (timers L),
                      started_at := started_at L @ [max (now L) due]\<rparr>
           in case executeCheck_enter (sched L1) of
                (Some rejected, s') \<Rightarrow> callback_continues (L1\<lparr>sched := s'\<rparr>)
              | (None, s') \<Rightarrow> L1\<lparr>sched := s'\<rparr>))"

definition check_completes :: "nat \<Rightarrow> ('r, 'm) collaborators \<Rightarrow> event_loop \<Rightarrow> event_loop" where
  "check_completes d env L =
     (if \<not> checkInProgress (sched L) then L
      else
        (let (outcome, s2, es) = performCheck env (sched L);
             (result, s3) = executeCheck_exit outcome s2
         in callback_continues (L\<lparr>now := now L + d, sched := s3\<rparr>)))"

datatype ('r, 'm) loop_event =
  Start | Stop | TimerFires | CheckCompletes nat "('r, 'm) collaborators"

fun loop_step :: "('r, 'm) loop_event \<Rightarrow> event_loop \<Rightarrow> event_loop" where
  "loop_step Start L = start L"
| "loop_step Stop L = stop L"
| "loop_step TimerFires L = timer_fires L"
| "loop_step (CheckCompletes d env) L = check_completes d env L"

definition loop_steps :: "('r, 'm) loop_event list \<Rightarrow> event_loop \<Rightarrow> event_loop" where
  "loop_steps events L = fold loop_step events L"

text \<open>
  \<open>n\<close> cycles one after the other, the \<open>k\<close>-th taking \<open>ds ! k\<close> milliseconds: the timer
  fires, the check completes.
\<close>

definition cycles :: "(nat \<times> ('r, 'm) collaborators) list \<Rightarrow> ('r, 'm) loop_event list" where
  "cycles ds = concat (map (\<lambda>(d, env). [TimerFires, CheckCompletes d env]) ds)"

text \<open>
  Start times of successive cycles. \<open>fixed_rate_starts\<close>: every cycle starts one
  interval after the start of the one before (the specification's reading).
  \<open>fixed_delay_starts\<close>: every cycle starts the delay \<open>i\<close> after the end of the one
  before, whose duration is the head of the list.
\<close>

definition fixed_rate_starts :: "nat \<Rightarrow> nat \<Rightarrow> nat \<Rightarrow> nat list" where
  "fixed_rate_starts t i n = map (\<lambda>k. t + k * i) [0..<n]"

fun fixed_delay_starts :: "nat \<Rightarrow> nat \<Rightarrow> nat list \<Rightarrow> nat list" where
  "fixed_delay_starts t i [] = []"
| "fixed_delay_starts t i (d # ds) = t # fixed_delay_starts (t + d + i) i ds"

section \<open>Basic facts about the scheduler\<close>

text \<open>A check changes nothing of the scheduler but its three pools.\<close>

lemma performCheck_try_state:
  "fst (snd (snd (performCheck_try env s))) =
     s\<lparr>browserPool := snd (getNextBrowser (browserPool s)),
       userAgentRotator :=
         snd (getNextUserAgent (fst (getNextBrowser (browserPool s))) (userAgentRotator s)),
       proxyRotator := map_option (\<lambda>pr. snd (getNextProxy pr)) (proxyRotator s)\<rparr>"
  unfolding performCheck_try_def Let_def split_beta
  by (auto split: sum.splits option.splits prod.splits)

lemma performCheck_state:
  "fst (snd (performCheck env s)) = fst (snd (snd (performCheck_try env s)))
   \<or> (\<exists>pr p. proxyRotator (fst (snd (snd (performCheck_try env s)))) = Some pr
        \<and> fst (snd (performCheck env s)) =
            (fst (snd (snd (performCheck_try env s))))\<lparr>proxyRotator := Some (markProxyFailed p pr)\<rparr>)"
  unfolding performCheck_def Let_def split_beta
  by (auto split: sum.splits option.splits prod.splits)

lemma performCheck_frame:
  "\<exists>bp ua pr. fst (snd (performCheck env s))
      = s\<lparr>browserPool := bp, userAgentRotator := ua, proxyRotator := pr\<rparr>"
  using performCheck_state [of env s]
  by (auto simp: performCheck_try_state)

lemma performCheck_flag:
  "checkInProgress (fst (snd (performCheck env s))) = checkInProgress s"
  using performCheck_frame [of env s] by auto

lemma executeCheck_exit_frame:
  "snd (executeCheck_exit outcome s) = s\<lparr>checkInProgress := False\<rparr>"
  by (simp add: executeCheck_exit_def split: sum.splits)

lemma executeCheck_exit_flag:
  "\<not> checkInProgress (snd (executeCheck_exit outcome s))"
  by (simp add: executeCheck_exit_frame)

lemma executeCheck_enter_busy:
  "checkInProgress s \<Longrightarrow>
   executeCheck_enter s =
     (Some \<lparr>success = False,
            error = Some \<lparr>name = ''Error'', message = ''Check already in progress''\<rparr>\<rparr>, s)"
  by (simp add: executeCheck_enter_def)

lemma executeCheck_idle:
  "\<not> checkInProgress s \<Longrightarrow>
   executeCheck env s =
     (fst (executeCheck_exit (fst (performCheck env (s\<lparr>checkInProgress := True\<rparr>)))
             (fst (snd (performCheck env (s\<lparr>checkInProgress := True\<rparr>))))),
      snd (executeCheck_exit (fst (performCheck env (s\<lparr>checkInProgress := True\<rparr>)))
             (fst (snd (performCheck env (s\<lparr>checkInProgress := True\<rparr>))))),
      snd (snd (performCheck env (s\<lparr>checkInProgress := True\<rparr>))))"
  by (simp add: executeCheck_def executeCheck_enter_def split_beta Let_def)

lemma executeCheck_busy:
  "checkInProgress s \<Longrightarrow>
   executeCheck env s =
     (\<lparr>success = False,
       error = Some \<lparr>name = ''Error'', message = ''Check already in progress''\<rparr>\<rparr>, s, [])"
  by (simp add: executeCheck_def executeCheck_enter_busy)

lemma Scheduler_new_idle:
  "Scheduler_new sc sys = Inr s \<Longrightarrow>
   config s = sc \<and> timerId s = None \<and> \<not> checkInProgress s \<and> \<not> stopped s"
  by (auto simp: Scheduler_new_def Let_def split: sum.splits if_splits)

lemma Scheduler_new_ok:
  "or_default (minInterval sc) MIN_INTERVAL \<le> interval sc \<Longrightarrow> cfg_browsers sys \<noteq> [] \<Longrightarrow>
   \<exists>s. Scheduler_new sc sys = Inr s"
  by (auto simp: Scheduler_new_def Let_def BrowserPool_new_def)


section \<open>The recovery classifier's action\<close>

lemma handleError_unfold:
  "handleError e ctx =
     determineAction (categorizeError e) ctx (isRecoverable (categorizeError e) ctx)"
  by (simp add: handleError_def Let_def)

text \<open>
  Claim C5. For every failure and attempt context the prescribed action is the action
  of \<open>determineAction\<close> for the failure's category and its recoverability. A category is
  recoverable iff it is not \<open>Config\<close> and \<open>attempt < maxAttempts\<close>. Not recoverable:
  \<open>Config\<close> gives \<open>Fatal 1\<close>, every other category \<open>Skip\<close>. Recoverable:
  \<open>Authentication\<close> gives a retry after a fixed 30 seconds, \<open>Network\<close> a retry after
  \<open>min (2 ^ attempt) 60\<close> seconds, \<open>Browser\<close> the fallback to the next browser while
  \<open>attempt < 3\<close> and \<open>Skip\<close> otherwise, \<open>Parsing\<close> gives \<open>Skip\<close>, \<open>Webhook\<close> a retry
  after \<open>min (2 ^ attempt) 30\<close> seconds. Delays are in milliseconds in the code.
\<close>

theorem classifier_action:
  "handleError e ctx =
     determineAction (categorizeError e) ctx (isRecoverable (categorizeError e) ctx)
   \<and> (isRecoverable c ctx \<longleftrightarrow> c \<noteq> Config \<and> attempt ctx < maxAttempts ctx)
   \<and> (\<not> isRecoverable c ctx \<and> c = Config \<longrightarrow>
        determineAction c ctx (isRecoverable c ctx) = Fatal 1)
   \<and> (\<not> isRecoverable c ctx \<and> c \<noteq> Config \<longrightarrow>
        determineAction c ctx (isRecoverable c ctx) = Skip)
   \<and> (isRecoverable c ctx \<and> c = Authentication \<longrightarrow>
        determineAction c ctx (isRecoverable c ctx) = Retry (30 * 1000))
   \<and> (isRecoverable c ctx \<and> c = Network \<longrightarrow>
        determineAction c ctx (isRecoverable c ctx) = Retry (min (2 ^ attempt ctx) 60 * 1000))
   \<and> (isRecoverable c ctx \<and> c = Browser \<longrightarrow>
        determineAction c ctx (isRecoverable c ctx) =
          (if attempt ctx < 3 then Fallback ''next-browser'' else Skip))
   \<and> (isRecoverable c ctx \<and> c = Parsing \<longrightarrow>
        determineAction c ctx (isRecoverable c ctx) = Skip)
   \<and> (isRecoverable c ctx \<and> c = Webhook \<longrightarrow>
        determineAction c ctx (isRecoverable c ctx) = Retry (min (2 ^ attempt ctx) 30 * 1000))"
proof -
  have rec: "isRecoverable c ctx \<longleftrightarrow> c \<noteq> Config \<and> attempt ctx < maxAttempts ctx"
    by (auto simp: isRecoverable_def)
  have act: "determineAction c ctx True =
      (case c of Authentication \<Rightarrow> Retry 30000
       | Network \<Rightarrow> Retry (min (2 ^ attempt ctx) 60 * 1000)
       | Browser \<Rightarrow> (if attempt ctx < 3 then Fallback ''next-browser'' else Skip)
       | Parsing \<Rightarrow> Skip
       | Webhook \<Rightarrow> Retry (min (2 ^ attempt ctx) 30 * 1000)
       | Config \<Rightarrow> Skip)"
    by (cases c) (simp_all add: determineAction_def min_def)
  have no: "determineAction c ctx False = (if c = Config then Fatal 1 else Skip)"
    by (simp add: determineAction_def)
  show ?thesis
    using rec act no by (cases c) (simp_all add: handleError_unfold)
qed

text \<open>
  The scenario of the specification: the message "Authentication failed: bad password"
  at attempt 1 of 3 is an authentication failure, recoverable, retried after 30 s.
\<close>

theorem classifier_action_witness:
  "isRecoverable Authentication \<lparr>operation = ''check-cycle'', attempt = 1, maxAttempts = 3\<rparr>
   \<and> handleError \<lparr>name = ''Error'', message = ''Authentication failed: bad password''\<rparr>
        \<lparr>operation = ''check-cycle'', attempt = 1, maxAttempts = 3\<rparr> = Retry 30000"
proof -
  let ?e = "\<lparr>name = ''Error'', message = ''Authentication failed: bad password''\<rparr>"
  let ?ctx = "\<lparr>operation = ''check-cycle'', attempt = 1, maxAttempts = 3\<rparr>"
  have cat: "categorizeError ?e = Authentication"
    by code_simp
  have r: "isRecoverable Authentication ?ctx"
    by (simp add: isRecoverable_def)
  from classifier_action [of ?e ?ctx Authentication] cat r show ?thesis
    by simp
qed

section \<open>The categories of the classifier\<close>

lemma str_includes_sublist: "str_includes s sub \<longleftrightarrow> sublist sub s"
  by (induction s) (auto simp: sublist_Cons_right)

text \<open>
  Claim C4, as stated, fails: the specification lists "connection refused" among the
  network markers, the code tests for the error code \<open>econnrefused\<close>. The description
  "connection refused" is a network failure for the specification's table and a browser
  failure (the default) for the code.
\<close>

theorem categorize_spec_table_counterexample:
  "spec_classify (toLowerCase ''connection refused'') = Network
   \<and> categorizeError \<lparr>name = ''Error'', message = ''connection refused''\<rparr> = Browser"
  by code_simp

text \<open>
  Claim C4, amended. The classifier applies the ordered table with first match winning,
  where the network markers are "network", "timeout", "econnrefused", "enotfound", "dns",
  "proxy", or the lower-cased error name containing "networkerror", and the browser
  markers include "playwright"; the other rows are the specification's, and the
  category is \<open>Browser\<close> when no marker matches. In particular every description with
  one of the authentication markers is an authentication failure.
\<close>

theorem categorize_code_table:
  "categorizeError e = code_classify (toLowerCase (message e)) (toLowerCase (name e))
   \<and> (any_marker [''authentication'', ''login'', ''credential'', ''unauthorized'', ''401'']
         (toLowerCase (message e)) \<longrightarrow> categorizeError e = Authentication)"
  by (simp add: categorizeError_def code_classify_def code_rules_def any_marker_def Let_def)

theorem categorize_code_table_witness:
  "categorizeError \<lparr>name = ''Error'', message = ''connect ECONNREFUSED 10.0.0.1:8080''\<rparr> = Network
   \<and> categorizeError \<lparr>name = ''Error'', message = ''Login failed: unexpected page after login''\<rparr>
       = Authentication"
proof -
  let ?e1 = "\<lparr>name = ''Error'', message = ''connect ECONNREFUSED 10.0.0.1:8080''\<rparr>"
  let ?e2 = "\<lparr>name = ''Error'', message = ''Login failed: unexpected page after login''\<rparr>"
  have "code_classify (toLowerCase (message ?e1)) (toLowerCase (name ?e1)) = Network"
    by code_simp
  with categorize_code_table [of ?e1] have n: "categorizeError ?e1 = Network"
    by (simp only:)
  have "any_marker [''authentication'', ''login'', ''credential'', ''unauthorized'', ''401'']
          (toLowerCase (message ?e2))"
    by code_simp
  moreover from categorize_code_table [of ?e2]
  have "any_marker [''authentication'', ''login'', ''credential'', ''unauthorized'', ''401'']
          (toLowerCase (message ?e2)) \<longrightarrow> categorizeError ?e2 = Authentication"
    by (rule conjunct2)
  ultimately have "categorizeError ?e2 = Authentication"
    by (rule rev_mp)
  with n show ?thesis by (rule conjI)
qed

section \<open>Round robin of the pools without failure tracking\<close>

lemma js_index_in: "i < length xs \<Longrightarrow> js_index xs i = Some (xs ! i)"
  by (simp add: js_index_def)

lemma browser_calls_map:
  "pool_currentIndex p < length (browsers p) \<Longrightarrow>
   browser_calls n p =
     map (\<lambda>i. Some (browsers p ! ((pool_currentIndex p + i) mod length (browsers p)))) [0..<n]"
proof (induction n arbitrary: p)
  case 0
  then show ?case by simp
next
  case (Suc n)
  let ?N = "length (browsers p)"
  let ?p' = "p\<lparr>pool_currentIndex := (pool_currentIndex p + 1) mod ?N\<rparr>"
  from Suc.prems have pos: "0 < ?N" by auto
  then have idx: "pool_currentIndex ?p' < length (browsers ?p')" by simp
  have step: "browser_calls (Suc n) p = Some (browsers p ! pool_currentIndex p) # browser_calls n ?p'"
    using Suc.prems by (simp add: getNextBrowser_def Let_def js_index_in)
  have shift: "(Suc (pool_currentIndex p) mod ?N + i) mod ?N = Suc (pool_currentIndex p + i) mod ?N" for i
    by (metis add_Suc mod_add_left_eq)
  have "browser_calls n ?p' =
      map (\<lambda>i. Some (browsers p ! ((pool_currentIndex p + Suc i) mod ?N))) [0..<n]"
    using Suc.IH [OF idx] by (simp add: shift)
  then show ?case
    unfolding step using Suc.prems by (simp add: map_upt_Suc del: upt_Suc)
qed

lemma user_agent_calls_map:
  "ua_currentIndex r < length (userAgents r) \<Longrightarrow>
   user_agent_calls bts r =
     map (\<lambda>i. Some (userAgents r ! ((ua_currentIndex r + i) mod length (userAgents r))))
       [0..<length bts]"
proof (induction bts arbitrary: r)
  case Nil
  then show ?case by simp
next
  case (Cons b bts)
  let ?N = "length (userAgents r)"
  let ?r' = "r\<lparr>ua_currentIndex := (ua_currentIndex r + 1) mod ?N\<rparr>"
  from Cons.prems have pos: "0 < ?N" by auto
  then have idx: "ua_currentIndex ?r' < length (userAgents ?r')" by simp
  have step: "user_agent_calls (b # bts) r =
      Some (userAgents r ! ua_currentIndex r) # user_agent_calls bts ?r'"
    using Cons.prems pos by (simp add: getNextUserAgent_def Let_def js_index_in)
  have shift: "(Suc (ua_currentIndex r) mod ?N + i) mod ?N = Suc (ua_currentIndex r + i) mod ?N" for i
    by (metis add_Suc mod_add_left_eq)
  have "user_agent_calls bts ?r' =
      map (\<lambda>i. Some (userAgents r ! ((ua_currentIndex r + Suc i) mod ?N))) [0..<length bts]"
    using Cons.IH [OF idx] by (simp add: shift)
  then show ?case
    unfolding step using Cons.prems by (simp add: map_upt_Suc del: upt_Suc)
qed

lemma rotate_as_map:
  "rotate j xs = map (\<lambda>i. xs ! ((j + i) mod length xs)) [0..<length xs]"
  by (rule nth_equalityI) (simp_all add: nth_rotate)

lemma mset_rotate_eq: "mset (rotate j xs) = mset xs"
proof -
  let ?m = "j mod length xs"
  have "mset (rotate j xs) = mset (drop ?m xs) + mset (take ?m xs)"
    by (simp add: rotate_drop_take)
  also have "\<dots> = mset (take ?m xs @ drop ?m xs)"
    by (simp only: mset_append union_commute)
  finally show ?thesis by simp
qed

text \<open>The calls \<open>j, \<dots>, j + length xs - 1\<close> of a round robin over \<open>xs\<close> that started at position 0.\<close>

lemma rotation_block:
  assumes "xs \<noteq> []"
  shows "calls_block j (length xs) (map (\<lambda>i. Some (xs ! (i mod length xs))) [0..<j + length xs])
         = map Some (rotate j xs)"
proof -
  have "calls_block j (length xs) (map (\<lambda>i. Some (xs ! (i mod length xs))) [0..<j + length xs])
        = map (\<lambda>i. Some (xs ! (i mod length xs))) [j..<j + length xs]"
    by (simp add: calls_block_def drop_map take_map)
  also have "[j..<j + length xs] = map (\<lambda>i. j + i) [0..<length xs]"
    by (simp add: map_add_upt add.commute)
  finally show ?thesis
    by (simp add: rotate_as_map comp_def)
qed

lemma rotation_facts:
  assumes ne: "xs \<noteq> []"
    and outs: "\<And>n. outs n = map (\<lambda>i. Some (xs ! (i mod length xs))) [0..<n]"
  shows "k < n \<Longrightarrow> outs n ! k = Some (xs ! (k mod length xs))"
    and "mset (calls_block j (length xs) (outs (j + length xs))) = mset (map Some xs)"
    and "calls_block (j + length xs) (length xs) (outs (j + length xs + length xs))
         = calls_block j (length xs) (outs (j + length xs))"
proof -
  show "k < n \<Longrightarrow> outs n ! k = Some (xs ! (k mod length xs))"
    by (simp add: outs)
  show "mset (calls_block j (length xs) (outs (j + length xs))) = mset (map Some xs)"
    by (simp only: outs rotation_block [OF ne]) (simp add: mset_rotate_eq)
  have "rotate (j + length xs) xs = rotate j xs"
    by (metis rotate_conv_mod mod_add_self2)
  then show "calls_block (j + length xs) (length xs) (outs (j + length xs + length xs))
         = calls_block j (length xs) (outs (j + length xs))"
    by (simp only: outs rotation_block [OF ne])
qed


text \<open>
  Claim C3. A browser pool constructed from a non-empty list \<open>bs\<close>, or reset, returns
  \<open>bs ! (k mod length bs)\<close> at its \<open>k\<close>-th call (counted from 0); the calls
  \<open>j, \<dots>, j + length bs - 1\<close> return every position of the list exactly once (as a
  multiset, the block is the list), and the next block of \<open>length bs\<close> calls returns the
  same values in the same order. The same holds for a user agent rotator with a
  non-empty list of custom user agents, whatever browser types the calls pass.
\<close>

theorem round_robin:
  "(bs \<noteq> [] \<and> (BrowserPool_new bs = Inr p \<or> (browsers q = bs \<and> p = BrowserPool_reset q)) \<longrightarrow>
      (\<forall>k<n. browser_calls n p ! k = Some (bs ! (k mod length bs)))
      \<and> mset (calls_block j (length bs) (browser_calls (j + length bs) p)) = mset (map Some bs)
      \<and> calls_block (j + length bs) (length bs) (browser_calls (j + length bs + length bs) p)
          = calls_block j (length bs) (browser_calls (j + length bs) p))
   \<and> (uas \<noteq> [] \<and> (r = UserAgentRotator_new (Some uas)
                     \<or> (userAgents u = uas \<and> r = UserAgentRotator_reset u)) \<longrightarrow>
      (\<forall>k<n. user_agent_calls (map bt [0..<n]) r ! k = Some (uas ! (k mod length uas)))
      \<and> mset (calls_block j (length uas) (user_agent_calls (map bt [0..<j + length uas]) r))
          = mset (map Some uas)
      \<and> calls_block (j + length uas) (length uas)
            (user_agent_calls (map bt [0..<j + length uas + length uas]) r)
          = calls_block j (length uas) (user_agent_calls (map bt [0..<j + length uas]) r))"
proof (intro conjI impI)
  assume a: "bs \<noteq> [] \<and> (BrowserPool_new bs = Inr p \<or> (browsers q = bs \<and> p = BrowserPool_reset q))"
  then have ne: "bs \<noteq> []" and p: "browsers p = bs" "pool_currentIndex p = 0"
    by (auto simp: BrowserPool_new_def BrowserPool_reset_def split: if_splits)
  have outs: "browser_calls m p = map (\<lambda>i. Some (bs ! (i mod length bs))) [0..<m]" for m
    using browser_calls_map [of p m] ne p by simp
  from rotation_facts [of bs "\<lambda>m. browser_calls m p", OF ne outs]
  show "\<forall>k<n. browser_calls n p ! k = Some (bs ! (k mod length bs))"
    and "mset (calls_block j (length bs) (browser_calls (j + length bs) p)) = mset (map Some bs)"
    and "calls_block (j + length bs) (length bs) (browser_calls (j + length bs + length bs) p)
          = calls_block j (length bs) (browser_calls (j + length bs) p)"
    by blast+
next
  assume a: "uas \<noteq> [] \<and> (r = UserAgentRotator_new (Some uas)
                     \<or> (userAgents u = uas \<and> r = UserAgentRotator_reset u))"
  then have ne: "uas \<noteq> []" and r: "userAgents r = uas" "ua_currentIndex r = 0"
    by (auto simp: UserAgentRotator_new_def UserAgentRotator_reset_def)
  have outs: "user_agent_calls (map bt [0..<m]) r = map (\<lambda>i. Some (uas ! (i mod length uas))) [0..<m]"
    for m
    using user_agent_calls_map [of r "map bt [0..<m]"] ne r by simp
  from rotation_facts [of uas "\<lambda>m. user_agent_calls (map bt [0..<m]) r", OF ne outs]
  show "\<forall>k<n. user_agent_calls (map bt [0..<n]) r ! k = Some (uas ! (k mod length uas))"
    and "mset (calls_block j (length uas) (user_agent_calls (map bt [0..<j + length uas]) r))
          = mset (map Some uas)"
    and "calls_block (j + length uas) (length uas)
            (user_agent_calls (map bt [0..<j + length uas + length uas]) r)
          = calls_block j (length uas) (user_agent_calls (map bt [0..<j + length uas]) r)"
    by blast+
qed

theorem round_robin_witness:
  "BrowserPool_new [chromium, edge] = Inr \<lparr>browsers = [chromium, edge], pool_currentIndex = 0\<rparr>
   \<and> browser_calls 3 \<lparr>browsers = [chromium, edge], pool_currentIndex = 0\<rparr> ! 2 = Some chromium
   \<and> user_agent_calls (map (\<lambda>k. Some edge) [0..<3]) (UserAgentRotator_new (Some [''ua-1'', ''ua-2''])) ! 2
       = Some ''ua-1''"
proof -
  let ?bs = "[chromium, edge]"
  let ?p = "\<lparr>browsers = ?bs, pool_currentIndex = 0\<rparr>"
  let ?uas = "[''ua-1'', ''ua-2'']"
  have new: "BrowserPool_new ?bs = Inr ?p"
    by (simp add: BrowserPool_new_def)
  have "(2::nat) < 3" by simp
  with new round_robin [of ?bs ?p undefined 3 0 ?uas "UserAgentRotator_new (Some ?uas)" undefined
                           "\<lambda>k. Some edge"]
  have "browser_calls 3 ?p ! 2 = Some (?bs ! (2 mod length ?bs))"
    and "user_agent_calls (map (\<lambda>k. Some edge) [0..<3]) (UserAgentRotator_new (Some ?uas)) ! 2
          = Some (?uas ! (2 mod length ?uas))"
    by blast+
  moreover have "?bs ! (2 mod length ?bs) = chromium" and "?uas ! (2 mod length ?uas) = ''ua-1''"
    by code_simp+
  ultimately show ?thesis using new by (simp only: simp_thms)
qed

section \<open>Failure tracking of the proxy rotator\<close>

lemma getNextProxy_loop_result:
  "proxies (snd (getNextProxy_loop a r)) = proxies r
   \<and> failedProxies (snd (getNextProxy_loop a r)) = failedProxies r
   \<and> (\<forall>q. fst (getNextProxy_loop a r) = Inr (Some q) \<longrightarrow> getProxyKey q \<notin> failedProxies r)"
proof (induction a r rule: getNextProxy_loop.induct)
  case (1 attempts r)
  let ?r' = "r\<lparr>currentIndex := (currentIndex r + 1) mod length (proxies r)\<rparr>"
  show ?case
  proof (cases "attempts < length (proxies r)")
    case False
    then show ?thesis
      by (subst (1 2 3) getNextProxy_loop.simps) simp
  next
    case inside: True
    show ?thesis
    proof (cases "js_index (proxies r) (currentIndex r)")
      case None
      with inside show ?thesis
        by (subst (1 2 3) getNextProxy_loop.simps) (simp add: Let_def)
    next
      case (Some p)
      show ?thesis
      proof (cases "getProxyKey p \<notin> failedProxies ?r'")
        case True
        with inside Some show ?thesis
          by (subst (1 2 3) getNextProxy_loop.simps) (simp add: Let_def)
      next
        case False
        from "1.IH" [OF inside refl refl Some False]
        have "proxies (snd (getNextProxy_loop (attempts + 1) ?r')) = proxies r
          \<and> failedProxies (snd (getNextProxy_loop (attempts + 1) ?r')) = failedProxies r
          \<and> (\<forall>q. fst (getNextProxy_loop (attempts + 1) ?r') = Inr (Some q) \<longrightarrow>
                  getProxyKey q \<notin> failedProxies r)"
          by simp
        moreover have "getNextProxy_loop attempts r = getNextProxy_loop (attempts + 1) ?r'"
          using inside Some False
          by (subst getNextProxy_loop.simps) (simp add: Let_def)
        ultimately show ?thesis by simp
      qed
    qed
  qed
qed

lemma getNextProxy_loop_failed [simp]:
  "failedProxies (snd (getNextProxy_loop a r)) = failedProxies r"
  using getNextProxy_loop_result [of a r] by blast

lemma getNextProxy_loop_proxies [simp]:
  "proxies (snd (getNextProxy_loop a r)) = proxies r"
  using getNextProxy_loop_result [of a r] by blast

lemma getNextProxy_loop_available:
  "fst (getNextProxy_loop a r) = Inr (Some q) \<Longrightarrow> getProxyKey q \<notin> failedProxies r"
  using getNextProxy_loop_result [of a r] by blast

lemma getNextProxy_failed [simp]: "failedProxies (snd (getNextProxy r)) = failedProxies r"
  by (simp add: getNextProxy_def Let_def)

lemma getNextProxy_proxies [simp]: "proxies (snd (getNextProxy r)) = proxies r"
  by (simp add: getNextProxy_def Let_def)

lemma getNextProxy_available:
  "fst (getNextProxy r) = Inr (Some q) \<Longrightarrow> getProxyKey q \<notin> failedProxies r"
  by (auto simp: getNextProxy_def Let_def split: if_splits dest: getNextProxy_loop_available)

lemma getNextProxy_all_failed:
  "\<forall>x\<in>set (proxies r). getProxyKey x \<in> failedProxies r \<Longrightarrow> getNextProxy r = (Inr None, r)"
  by (auto simp: getNextProxy_def Let_def filter_empty_conv)

lemma proxy_calls_excluded:
  "ResetFailures \<notin> set cs \<Longrightarrow> key \<in> failedProxies r \<Longrightarrow>
   Inr (Some q) \<in> set (fst (proxy_calls cs r)) \<Longrightarrow> getProxyKey q \<noteq> key"
proof (induction cs r rule: proxy_calls.induct)
  case (1 r)
  then show ?case by simp
next
  case (2 cs r)
  obtain res r' where g: "getNextProxy r = (res, r')" by (cases "getNextProxy r")
  then have f: "failedProxies r' = failedProxies r"
    using getNextProxy_failed [of r] by simp
  from 2 g f show ?case
    using getNextProxy_available [of r q]
    by (auto split: prod.splits)
next
  case (3 p cs r)
  then show ?case by (simp add: markProxyFailed_def)
next
  case (4 cs r)
  then show ?case by simp
next
  case (5 cs r)
  then show ?case by (simp add: ProxyRotator_reset_def)
qed

lemma proxy_calls_all_failed:
  "ResetFailures \<notin> set cs \<Longrightarrow> \<forall>x\<in>set (proxies r). getProxyKey x \<in> failedProxies r \<Longrightarrow>
   res \<in> set (fst (proxy_calls cs r)) \<Longrightarrow> res = Inr None"
proof (induction cs r rule: proxy_calls.induct)
  case (1 r)
  then show ?case by simp
next
  case (2 cs r)
  from "2.prems"(2) have g: "getNextProxy r = (Inr None, r)"
    by (rule getNextProxy_all_failed)
  from 2 g show ?case
    by (auto split: prod.splits)
next
  case (3 p cs r)
  then show ?case by (simp add: markProxyFailed_def)
next
  case (4 cs r)
  then show ?case by simp
next
  case (5 cs r)
  then show ?case by (simp add: ProxyRotator_reset_def)
qed

text \<open>
  Claim C2. Whatever the state \<open>r\<close> of a proxy rotator: after \<open>markProxyFailed p\<close>, no
  call of \<open>getNextProxy\<close> returns a proxy with the key of \<open>p\<close> (server and optional user
  name), in any sequence of calls of the rotator's methods without \<open>resetFailures\<close>; and
  when every proxy of the pool is marked failed (which includes the empty pool),
  \<open>getNextProxy\<close> returns \<open>null\<close> and leaves the state as it is, at every call of such a
  sequence.
\<close>

theorem failed_proxy_excluded:
  "(ResetFailures \<notin> set cs \<and> getProxyKey q = getProxyKey p \<longrightarrow>
      Inr (Some q) \<notin> set (fst (proxy_calls cs (markProxyFailed p r))))
   \<and> (ResetFailures \<notin> set cs \<and> (\<forall>x\<in>set (proxies r). isProxyFailed x r) \<longrightarrow>
      getNextProxy r = (Inr None, r)
      \<and> (\<forall>res\<in>set (fst (proxy_calls cs r)). res = Inr None))"
proof (intro conjI impI)
  assume a: "ResetFailures \<notin> set cs \<and> getProxyKey q = getProxyKey p"
  have "getProxyKey p \<in> failedProxies (markProxyFailed p r)"
    by (simp add: markProxyFailed_def)
  with a show "Inr (Some q) \<notin> set (fst (proxy_calls cs (markProxyFailed p r)))"
    using proxy_calls_excluded [of cs "getProxyKey p" "markProxyFailed p r" q] by blast
next
  assume a: "ResetFailures \<notin> set cs \<and> (\<forall>x\<in>set (proxies r). isProxyFailed x r)"
  then have all: "\<forall>x\<in>set (proxies r). getProxyKey x \<in> failedProxies r"
    by (simp add: isProxyFailed_def)
  then show "getNextProxy r = (Inr None, r)"
    by (rule getNextProxy_all_failed)
  from a all show "\<forall>res\<in>set (fst (proxy_calls cs r)). res = Inr None"
    using proxy_calls_all_failed [of cs r] by blast
qed


theorem failed_proxy_excluded_witness:
  "Inr (Some \<lparr>server = ''10.0.0.1:8080'', username = None, password = None\<rparr>)
     \<notin> set (fst (proxy_calls [GetNextProxy, Reset, GetNextProxy, GetNextProxy]
         (markProxyFailed \<lparr>server = ''10.0.0.1:8080'', username = None, password = None\<rparr>
           (ProxyRotator_new
             [\<lparr>server = ''10.0.0.1:8080'', username = None, password = None\<rparr>,
              \<lparr>server = ''10.0.0.2:8080'', username = Some ''u'', password = Some ''pw''\<rparr>]))))
   \<and> fst (getNextProxy
         (markProxyFailed \<lparr>server = ''10.0.0.2:8080'', username = Some ''u'', password = Some ''pw''\<rparr>
           (markProxyFailed \<lparr>server = ''10.0.0.1:8080'', username = None, password = None\<rparr>
             (ProxyRotator_new
               [\<lparr>server = ''10.0.0.1:8080'', username = None, password = None\<rparr>,
                \<lparr>server = ''10.0.0.2:8080'', username = Some ''u'', password = Some ''pw''\<rparr>]))))
       = Inr None"
proof -
  let ?pA = "\<lparr>server = ''10.0.0.1:8080'', username = None, password = None\<rparr>"
  let ?pB = "\<lparr>server = ''10.0.0.2:8080'', username = Some ''u'', password = Some ''pw''\<rparr>"
  let ?r = "ProxyRotator_new [?pA, ?pB]"
  let ?all = "markProxyFailed ?pB (markProxyFailed ?pA ?r)"
  let ?cs = "[GetNextProxy, Reset, GetNextProxy, GetNextProxy]"
  have "ResetFailures \<notin> set ?cs \<and> getProxyKey ?pA = getProxyKey ?pA"
    by simp
  with failed_proxy_excluded [of ?cs ?pA ?pA ?r]
  have one: "Inr (Some ?pA) \<notin> set (fst (proxy_calls ?cs (markProxyFailed ?pA ?r)))"
    by blast
  have "ResetFailures \<notin> set [] \<and> (\<forall>x\<in>set (proxies ?all). isProxyFailed x ?all)"
    by (simp add: ProxyRotator_new_def markProxyFailed_def isProxyFailed_def)
  with failed_proxy_excluded [of "[]" ?pA ?pA ?all]
  have "getNextProxy ?all = (Inr None, ?all)"
    by blast
  then have "fst (getNextProxy ?all) = Inr None"
    by (simp only: fst_conv)
  with one show ?thesis by (rule conjI)
qed

section \<open>Delivery with retries\<close>

lemma sendRequest_effects [simp]:
  "snd (sendRequest cfg answer ms acct) = [HttpPost (url cfg) acct ms]"
  by (simp add: sendRequest_def split: fetch_result.splits)

text \<open>
  The loop entered at attempt \<open>n\<close>, when the attempts \<open>n, \<dots>, k - 1\<close> fail: it posts and
  sleeps for each of them and goes on as the loop entered at attempt \<open>k\<close>.
\<close>

lemma sendWithRetry_loop_prefix:
  assumes "n \<le> k" and "k \<le> A"
    and "\<forall>i. n \<le> i \<and> i < k \<longrightarrow> fst (sendRequest cfg (endpoint i) ms acct) = Inl (err i)"
  shows "sendWithRetry_loop cfg endpoint ms acct A n lastError =
           (fst (sendWithRetry_loop cfg endpoint ms acct A k
                   (if n < k then Some (err (k - 1)) else lastError)),
            concat (map (\<lambda>i. [HttpPost (url cfg) acct ms, Sleep (calculateBackoff i)]) [n..<k])
            @ snd (sendWithRetry_loop cfg endpoint ms acct A k
                   (if n < k then Some (err (k - 1)) else lastError)))"
  using assms
proof (induction "k - n" arbitrary: n lastError)
  case 0
  then have "n = k" by simp
  then show ?case by simp
next
  case (Suc d)
  then have lt: "n < k" and d: "d = k - (n + 1)" and le: "n + 1 \<le> k" by simp_all
  from Suc.prems lt have nA: "n < A" and nle: "n \<le> A" by simp_all
  from Suc.prems lt have failn: "fst (sendRequest cfg (endpoint n) ms acct) = Inl (err n)" by simp
  have fails': "\<forall>i. n + 1 \<le> i \<and> i < k \<longrightarrow> fst (sendRequest cfg (endpoint i) ms acct) = Inl (err i)"
    using Suc.prems by simp
  have upt: "[n..<k] = n # [n + 1..<k]"
    using lt by (simp add: upt_conv_Cons)
  have last: "(if n + 1 < k then Some (err (k - 1)) else Some (err n)) = Some (err (k - 1))"
  proof -
    from lt have "\<not> n + 1 < k \<Longrightarrow> k - 1 = n" by arith
    then show ?thesis by auto
  qed
  have step: "sendWithRetry_loop cfg endpoint ms acct A n lastError =
      (fst (sendWithRetry_loop cfg endpoint ms acct A (n + 1) (Some (err n))),
       [HttpPost (url cfg) acct ms, Sleep (calculateBackoff n)]
       @ snd (sendWithRetry_loop cfg endpoint ms acct A (n + 1) (Some (err n))))"
    using failn nA nle
    by (subst sendWithRetry_loop.simps) (simp add: split_beta Let_def)
  show ?case
    using Suc.hyps(1) [OF d le \<open>k \<le> A\<close> fails', of "Some (err n)"] lt
    by (simp only: step last upt) simp
qed


lemma sendWithRetry_loop_exhausted:
  "fst (sendRequest cfg (endpoint A) ms acct) = Inl e \<Longrightarrow>
   sendWithRetry_loop cfg endpoint ms acct A A lastError =
     (Inl \<lparr>name = ''Error'',
           message = ''Webhook delivery failed after '' @ string_of_nat A
                     @ '' attempts: '' @ message e\<rparr>,
      [HttpPost (url cfg) acct ms])"
proof -
  have stop: "sendWithRetry_loop cfg endpoint ms acct A (A + 1) (Some e) =
        (Inl \<lparr>name = ''Error'',
              message = ''Webhook delivery failed after '' @ string_of_nat A
                        @ '' attempts: '' @ message e\<rparr>, [])"
    by (subst sendWithRetry_loop.simps) simp
  assume "fst (sendRequest cfg (endpoint A) ms acct) = Inl e"
  with stop show ?thesis
    by (subst sendWithRetry_loop.simps) (simp add: split_beta Let_def)
qed

lemma count_posts:
  "count_list (concat (map (\<lambda>i. [HttpPost u a m, Sleep (b i)]) xs) @ [HttpPost u a m]) (HttpPost u a m)
   = length xs + 1"
  by (induction xs) simp_all


lemma sendWithRetry_all_fail:
  assumes "1 \<le> A"
    and "\<forall>i. 1 \<le> i \<and> i \<le> A \<longrightarrow> fst (sendRequest cfg (endpoint i) ms acct) = Inl (err i)"
  shows "sendWithRetry cfg endpoint ms acct A =
      (Inl \<lparr>name = ''Error'',
            message = ''Webhook delivery failed after '' @ string_of_nat A
                      @ '' attempts: '' @ message (err A)\<rparr>,
       concat (map (\<lambda>i. [HttpPost (url cfg) acct ms, Sleep (calculateBackoff i)]) [1..<A])
       @ [HttpPost (url cfg) acct ms])"
proof -
  from assms have f: "\<forall>i. 1 \<le> i \<and> i < A \<longrightarrow> fst (sendRequest cfg (endpoint i) ms acct) = Inl (err i)"
    and l: "fst (sendRequest cfg (endpoint A) ms acct) = Inl (err A)"
    by simp_all
  show ?thesis
    unfolding sendWithRetry_def
    using l
    by (subst sendWithRetry_loop_prefix [OF \<open>1 \<le> A\<close> le_refl f])
       (simp add: sendWithRetry_loop_exhausted)
qed




text \<open>
  Claim C10. A webhook client configured with \<open>retryAttempts = 0\<close>, like one with no
  \<open>retryAttempts\<close>, sends with 3 as the number of attempts: against an endpoint that
  always fails, \<open>send\<close> posts exactly 3 times before it raises.
\<close>

theorem send_zero_retryAttempts:
  "((retryAttempts cfg = Some 0 \<or> retryAttempts cfg = None) \<longrightarrow>
      send cfg endpoint ms acct = sendWithRetry cfg endpoint ms acct 3)
   \<and> ((retryAttempts cfg = Some 0 \<or> retryAttempts cfg = None)
       \<and> (\<forall>i. 1 \<le> i \<and> i \<le> 3 \<longrightarrow> fst (sendRequest cfg (endpoint i) ms acct) = Inl (err i)) \<longrightarrow>
      count_list (snd (send cfg endpoint ms acct)) (HttpPost (url cfg) acct ms) = 3
      \<and> fst (send cfg endpoint ms acct) =
          Inl \<lparr>name = ''Error'',
               message = ''Webhook delivery failed after '' @ string_of_nat 3
                         @ '' attempts: '' @ message (err 3)\<rparr>)"
proof (intro conjI impI)
  assume "retryAttempts cfg = Some 0 \<or> retryAttempts cfg = None"
  then show "send cfg endpoint ms acct = sendWithRetry cfg endpoint ms acct 3"
    by (auto simp: send_def or_default_def)
next
  assume a: "(retryAttempts cfg = Some 0 \<or> retryAttempts cfg = None)
       \<and> (\<forall>i. 1 \<le> i \<and> i \<le> 3 \<longrightarrow> fst (sendRequest cfg (endpoint i) ms acct) = Inl (err i))"
  then have s: "send cfg endpoint ms acct = sendWithRetry cfg endpoint ms acct 3"
    by (auto simp: send_def or_default_def)
  from a have run: "sendWithRetry cfg endpoint ms acct 3 =
      (Inl \<lparr>name = ''Error'',
            message = ''Webhook delivery failed after '' @ string_of_nat 3
                      @ '' attempts: '' @ message (err 3)\<rparr>,
       concat (map (\<lambda>i. [HttpPost (url cfg) acct ms, Sleep (calculateBackoff i)]) [1..<3])
       @ [HttpPost (url cfg) acct ms])"
    using sendWithRetry_all_fail [of 3 cfg endpoint ms acct err] by simp
  show "count_list (snd (send cfg endpoint ms acct)) (HttpPost (url cfg) acct ms) = 3"
    by (simp only: s run snd_conv count_posts) simp
  show "fst (send cfg endpoint ms acct) =
          Inl \<lparr>name = ''Error'',
               message = ''Webhook delivery failed after '' @ string_of_nat 3
                         @ '' attempts: '' @ message (err 3)\<rparr>"
    by (simp only: s run fst_conv)
qed

theorem send_zero_retryAttempts_witness:
  "count_list
     (snd (send \<lparr>url = ''https://hook.example/bca'', retryAttempts = Some 0\<rparr>
             (\<lambda>i. Rejected \<lparr>name = ''TypeError'', message = ''fetch failed''\<rparr>)
             [''mutation''] ''account-1''))
     (HttpPost ''https://hook.example/bca'' ''account-1'' [''mutation'']) = 3"
proof -
  let ?cfg = "\<lparr>url = ''https://hook.example/bca'', retryAttempts = Some 0\<rparr>"
  let ?endpoint = "\<lambda>i::nat. Rejected \<lparr>name = ''TypeError'', message = ''fetch failed''\<rparr>"
  have "(retryAttempts ?cfg = Some 0 \<or> retryAttempts ?cfg = None)
       \<and> (\<forall>i. 1 \<le> i \<and> i \<le> 3 \<longrightarrow>
            fst (sendRequest ?cfg (?endpoint i) [''mutation''] ''account-1'')
            = Inl ((\<lambda>i. \<lparr>name = ''TypeError'', message = ''fetch failed''\<rparr>) i))"
    by (simp add: sendRequest_def)
  with send_zero_retryAttempts [of ?cfg ?endpoint "[''mutation'']" "''account-1''"
         "\<lambda>i. \<lparr>name = ''TypeError'', message = ''fetch failed''\<rparr>"]
  have "count_list (snd (send ?cfg ?endpoint [''mutation''] ''account-1''))
          (HttpPost (url ?cfg) ''account-1'' [''mutation'']) = 3"
    by blast
  then show ?thesis by simp
qed

section \<open>Construction of the scheduler\<close>

text \<open>
  Claim C8, as stated, fails in its second half: with the default minimum and an
  interval of 300000 ms, construction still raises when the list of browsers is empty,
  because the constructor builds the browser pool.
\<close>

theorem scheduler_new_counterexample:
  "interval \<lparr>interval = 300000, minInterval = None\<rparr> \<ge> MIN_INTERVAL
   \<and> Scheduler_new \<lparr>interval = 300000, minInterval = None\<rparr>
        \<lparr>cfg_credentials = \<lparr>cred_username = ''user'', cred_password = ''secret''\<rparr>,
         cfg_interval = 300000, cfg_browsers = [], cfg_userAgents = None,
         cfg_proxy = None, cfg_webhook = None\<rparr>
       = Inl \<lparr>name = ''Error'', message = ''Browser pool must have at least one browser''\<rparr>"
  by (simp add: Scheduler_new_def MIN_INTERVAL_def or_default_def BrowserPool_new_def)

text \<open>
  Claim C8, amended. The minimum in force is the configured \<open>minInterval\<close>, or
  300000 ms when none (or 0) is configured. Construction raises whenever the interval
  is below it, and construction with an interval at or above it succeeds exactly when
  the list of browsers is not empty. The scheduler it returns is idle: no timer, no
  check in progress, not stopped.
\<close>

theorem scheduler_new_interval:
  "MIN_INTERVAL = 300000
   \<and> (minInterval sc = None \<longrightarrow> or_default (minInterval sc) MIN_INTERVAL = 300000)
   \<and> (interval sc < or_default (minInterval sc) MIN_INTERVAL \<longrightarrow>
        (\<exists>e. Scheduler_new sc sys = Inl e))
   \<and> (or_default (minInterval sc) MIN_INTERVAL \<le> interval sc \<longrightarrow>
        ((\<exists>s. Scheduler_new sc sys = Inr s) \<longleftrightarrow> cfg_browsers sys \<noteq> []))
   \<and> (Scheduler_new sc sys = Inr s \<longrightarrow>
        config s = sc \<and> timerId s = None \<and> \<not> checkInProgress s \<and> \<not> stopped s)"
  by (auto simp: Scheduler_new_def MIN_INTERVAL_def or_default_def BrowserPool_new_def Let_def
      split: sum.splits if_splits)

theorem scheduler_new_interval_witness:
  "(\<exists>e. Scheduler_new \<lparr>interval = 299999, minInterval = None\<rparr>
        \<lparr>cfg_credentials = \<lparr>cred_username = ''user'', cred_password = ''secret''\<rparr>,
         cfg_interval = 299999, cfg_browsers = [chromium], cfg_userAgents = None,
         cfg_proxy = None, cfg_webhook = None\<rparr> = Inl e)
   \<and> (\<exists>s. Scheduler_new \<lparr>interval = 300000, minInterval = None\<rparr>
        \<lparr>cfg_credentials = \<lparr>cred_username = ''user'', cred_password = ''secret''\<rparr>,
         cfg_interval = 300000, cfg_browsers = [chromium], cfg_userAgents = None,
         cfg_proxy = None, cfg_webhook = None\<rparr> = Inr s)"
proof -
  let ?low = "\<lparr>interval = 299999, minInterval = None\<rparr>"
  let ?ok = "\<lparr>interval = 300000, minInterval = None\<rparr>"
  let ?sys = "\<lambda>i. \<lparr>cfg_credentials = \<lparr>cred_username = ''user'', cred_password = ''secret''\<rparr>,
         cfg_interval = i, cfg_browsers = [chromium], cfg_userAgents = None,
         cfg_proxy = None, cfg_webhook = None\<rparr>"
  have "interval ?low < or_default (minInterval ?low) MIN_INTERVAL"
    by (simp add: or_default_def MIN_INTERVAL_def)
  with scheduler_new_interval [of ?low "?sys 299999"]
  have a: "\<exists>e. Scheduler_new ?low (?sys 299999) = Inl e"
    by blast
  have "or_default (minInterval ?ok) MIN_INTERVAL \<le> interval ?ok"
    and "cfg_browsers (?sys 300000) \<noteq> []"
    by (simp_all add: or_default_def MIN_INTERVAL_def)
  with scheduler_new_interval [of ?ok "?sys 300000"]
  have b: "\<exists>s. Scheduler_new ?ok (?sys 300000) = Inr s"
    by blast
  from a b show ?thesis by (rule conjI)
qed

section \<open>The overlap guard of \<open>executeCheck\<close>\<close>

lemma invoke_while_busy:
  "checkInProgress (engine st) \<Longrightarrow>
   engine_steps (replicate n (Invoke :: ('r, 'm) call_event)) st =
     st\<lparr>returned := returned st @
          replicate n \<lparr>success = False,
            error = Some \<lparr>name = ''Error'', message = ''Check already in progress''\<rparr>\<rparr>\<rparr>"
proof (induction n arbitrary: st)
  case 0
  then show ?case by (simp add: engine_steps_def)
next
  case (Suc n)
  let ?rej = "\<lparr>success = False,
            error = Some \<lparr>name = ''Error'', message = ''Check already in progress''\<rparr>\<rparr>"
  let ?st' = "st\<lparr>returned := returned st @ [?rej]\<rparr>"
  from Suc.prems have step: "engine_step (Invoke :: ('r, 'm) call_event) st = ?st'"
    by (simp add: executeCheck_enter_busy)
  from Suc.prems have busy: "checkInProgress (engine ?st')" by simp
  have "engine_steps (replicate (Suc n) (Invoke :: ('r, 'm) call_event)) st = engine_steps (replicate n (Invoke :: ('r, 'm) call_event)) ?st'"
    by (simp add: engine_steps_def step del: engine_step.simps)
  also have "\<dots> = ?st'\<lparr>returned := returned ?st' @ replicate n ?rej\<rparr>"
    by (rule Suc.IH [OF busy])
  finally show ?case
    by (simp add: replicate_app_Cons_same)
qed

lemma invoke_when_idle:
  "\<not> checkInProgress s \<Longrightarrow>
   engine_step (Invoke :: ('r, 'm) call_event) (engine_idle s) =
     \<lparr>engine = s\<lparr>checkInProgress := True\<rparr>, bodies_started = 1, bodies_running = 1,
      returned = []\<rparr>"
  by (simp add: engine_idle_def executeCheck_enter_def)

lemma invokes_when_idle:
  assumes "\<not> checkInProgress s"
  shows "engine_steps (replicate (Suc n) (Invoke :: ('r, 'm) call_event)) (engine_idle s) =
     \<lparr>engine = s\<lparr>checkInProgress := True\<rparr>, bodies_started = 1, bodies_running = 1,
      returned = replicate n \<lparr>success = False,
            error = Some \<lparr>name = ''Error'', message = ''Check already in progress''\<rparr>\<rparr>\<rparr>"
proof -
  let ?first = "\<lparr>engine = s\<lparr>checkInProgress := True\<rparr>, bodies_started = 1, bodies_running = 1,
      returned = []\<rparr>"
  have a: "engine_steps (replicate (Suc n) (Invoke :: ('r, 'm) call_event)) (engine_idle s) =
        engine_steps (replicate n (Invoke :: ('r, 'm) call_event))
          (engine_step (Invoke :: ('r, 'm) call_event) (engine_idle s))"
    by (simp add: engine_steps_def del: engine_step.simps)
  have b: "engine_step (Invoke :: ('r, 'm) call_event) (engine_idle s) = ?first"
    by (rule invoke_when_idle [OF assms])
  have c: "checkInProgress (engine ?first)"
    by simp
  show ?thesis
    unfolding a b by (simp only: invoke_while_busy [OF c]) simp
qed

lemma guard_inv_step: "guard_inv st \<Longrightarrow> guard_inv (engine_step ev st)"
proof (cases ev)
  case Invoke
  assume "guard_inv st"
  with Invoke show ?thesis
    by (auto simp: guard_inv_def executeCheck_enter_def)
next
  case (BodyReturns env)
  assume "guard_inv st"
  with BodyReturns show ?thesis
    using executeCheck_exit_flag [of "fst (performCheck env (engine st))"
            "fst (snd (performCheck env (engine st)))"]
    by (auto simp: guard_inv_def split_beta Let_def)
qed

lemma guard_inv_steps: "guard_inv st \<Longrightarrow> guard_inv (engine_steps events st)"
  unfolding engine_steps_def
  by (induction events arbitrary: st) (simp_all add: guard_inv_step del: engine_step.simps)

lemma guard_inv_idle: "\<not> checkInProgress s \<Longrightarrow> guard_inv (engine_idle s)"
  by (simp add: guard_inv_def engine_idle_def)

lemma engine_steps_append:
  "engine_steps (xs @ ys) st = engine_steps ys (engine_steps xs st)"
  by (simp add: engine_steps_def)

lemma body_returns_after_invokes:
  fixes env :: "('r, 'm) collaborators"
  assumes "\<not> checkInProgress s"
  shows "engine_steps (replicate (Suc m) Invoke @ [BodyReturns env]) (engine_idle s) =
     \<lparr>engine = fst (snd (executeCheck env s)), bodies_started = 1, bodies_running = 0,
      returned = replicate m \<lparr>success = False,
            error = Some \<lparr>name = ''Error'', message = ''Check already in progress''\<rparr>\<rparr>
        @ [fst (executeCheck env s)]\<rparr>"
  unfolding engine_steps_append invokes_when_idle [OF assms]
  by (simp add: engine_steps_def executeCheck_idle [OF assms] split_beta Let_def)

text \<open>
  Claim C1. A call of \<open>executeCheck\<close> while a check is in progress returns at once with
  the failure "Check already in progress", leaves the scheduler as it is and runs
  nothing of the body. Of \<open>n \<ge> 2\<close> calls made on an idle scheduler before the body
  returns, one starts the body and each of the other \<open>n - 1\<close> returns that failure;
  whatever calls and returns happen, at most one body runs and the flag is set exactly
  while it runs. When the body returns, with success or with an error, the flag is
  cleared, the call returns what an uninterrupted call would have returned, and a later
  call starts a body again.
\<close>

theorem overlap_guard:
  fixes env :: "('r, 'm) collaborators" and events :: "('r, 'm) call_event list"
  shows
  "(checkInProgress s \<longrightarrow>
      executeCheck_enter s =
        (Some \<lparr>success = False,
               error = Some \<lparr>name = ''Error'', message = ''Check already in progress''\<rparr>\<rparr>, s)
      \<and> executeCheck env s =
        (\<lparr>success = False,
          error = Some \<lparr>name = ''Error'', message = ''Check already in progress''\<rparr>\<rparr>, s, []))
   \<and> (\<not> checkInProgress s \<and> 2 \<le> n \<longrightarrow>
      bodies_started (engine_steps (replicate n (Invoke :: ('r, 'm) call_event)) (engine_idle s)) = 1
      \<and> returned (engine_steps (replicate n (Invoke :: ('r, 'm) call_event)) (engine_idle s)) =
          replicate (n - 1)
            \<lparr>success = False,
             error = Some \<lparr>name = ''Error'', message = ''Check already in progress''\<rparr>\<rparr>
      \<and> returned (engine_steps (replicate n Invoke @ [BodyReturns env]) (engine_idle s)) =
          replicate (n - 1)
            \<lparr>success = False,
             error = Some \<lparr>name = ''Error'', message = ''Check already in progress''\<rparr>\<rparr>
          @ [fst (executeCheck env s)]
      \<and> \<not> checkInProgress
            (engine (engine_steps (replicate n Invoke @ [BodyReturns env]) (engine_idle s)))
      \<and> bodies_started
            (engine_steps (replicate n Invoke @ [BodyReturns env, Invoke]) (engine_idle s)) = 2)
   \<and> (\<not> checkInProgress s \<longrightarrow>
      bodies_running (engine_steps events (engine_idle s)) \<le> 1
      \<and> (checkInProgress (engine (engine_steps events (engine_idle s)))
           \<longleftrightarrow> bodies_running (engine_steps events (engine_idle s)) = 1))
   \<and> (\<not> checkInProgress s \<longrightarrow> \<not> checkInProgress (fst (snd (executeCheck env s))))"
proof (intro conjI impI)
  assume "checkInProgress s"
  then show "executeCheck_enter s =
        (Some \<lparr>success = False,
               error = Some \<lparr>name = ''Error'', message = ''Check already in progress''\<rparr>\<rparr>, s)"
    and "executeCheck env s =
        (\<lparr>success = False,
          error = Some \<lparr>name = ''Error'', message = ''Check already in progress''\<rparr>\<rparr>, s, [])"
    by (simp_all add: executeCheck_enter_busy executeCheck_busy)
next
  assume idle: "\<not> checkInProgress s"
  show cleared: "\<not> checkInProgress (fst (snd (executeCheck env s)))"
    by (simp add: executeCheck_idle [OF idle] executeCheck_exit_flag)
  from guard_inv_steps [OF guard_inv_idle [OF idle], of events]
  show "bodies_running (engine_steps events (engine_idle s)) \<le> 1"
    and "checkInProgress (engine (engine_steps events (engine_idle s)))
           \<longleftrightarrow> bodies_running (engine_steps events (engine_idle s)) = 1"
    by (simp_all add: guard_inv_def)
next
  assume a: "\<not> checkInProgress s \<and> 2 \<le> n"
  then have idle: "\<not> checkInProgress s" and n: "n = Suc (n - 1)" by simp_all
  have cleared: "\<not> checkInProgress (fst (snd (executeCheck env s)))"
    by (simp add: executeCheck_idle [OF idle] executeCheck_exit_flag)
  have all: "engine_steps (replicate n (Invoke :: ('r, 'm) call_event)) (engine_idle s) =
     \<lparr>engine = s\<lparr>checkInProgress := True\<rparr>, bodies_started = 1, bodies_running = 1,
      returned = replicate (n - 1) \<lparr>success = False,
            error = Some \<lparr>name = ''Error'', message = ''Check already in progress''\<rparr>\<rparr>\<rparr>"
    using invokes_when_idle [OF idle, of "n - 1"] n by simp
  have ret: "engine_steps (replicate n Invoke @ [BodyReturns env]) (engine_idle s) =
     \<lparr>engine = fst (snd (executeCheck env s)), bodies_started = 1, bodies_running = 0,
      returned = replicate (n - 1) \<lparr>success = False,
            error = Some \<lparr>name = ''Error'', message = ''Check already in progress''\<rparr>\<rparr>
        @ [fst (executeCheck env s)]\<rparr>"
    using body_returns_after_invokes [OF idle, of "n - 1" env] n by simp
  show "bodies_started (engine_steps (replicate n (Invoke :: ('r, 'm) call_event)) (engine_idle s)) = 1"
    by (simp only: all) simp
  show "returned (engine_steps (replicate n (Invoke :: ('r, 'm) call_event)) (engine_idle s)) =
          replicate (n - 1)
            \<lparr>success = False,
             error = Some \<lparr>name = ''Error'', message = ''Check already in progress''\<rparr>\<rparr>"
    by (simp only: all) simp
  show "returned (engine_steps (replicate n Invoke @ [BodyReturns env]) (engine_idle s)) =
          replicate (n - 1)
            \<lparr>success = False,
             error = Some \<lparr>name = ''Error'', message = ''Check already in progress''\<rparr>\<rparr>
          @ [fst (executeCheck env s)]"
    by (simp only: ret) simp
  show "\<not> checkInProgress
            (engine (engine_steps (replicate n Invoke @ [BodyReturns env]) (engine_idle s)))"
    using cleared by (simp only: ret) simp
  have "engine_steps (replicate n Invoke @ [BodyReturns env, Invoke]) (engine_idle s) =
        engine_step (Invoke :: ('r, 'm) call_event)
          (engine_steps (replicate n Invoke @ [BodyReturns env]) (engine_idle s))"
    by (simp add: engine_steps_def del: engine_step.simps)
  then show "bodies_started
            (engine_steps (replicate n Invoke @ [BodyReturns env, Invoke]) (engine_idle s)) = 2"
    using cleared by (simp only: ret) (simp add: executeCheck_enter_def)
qed

theorem overlap_guard_witness:
  "case Scheduler_new \<lparr>interval = 300000, minInterval = None\<rparr>
        \<lparr>cfg_credentials = \<lparr>cred_username = ''user'', cred_password = ''secret''\<rparr>,
         cfg_interval = 300000, cfg_browsers = [chromium], cfg_userAgents = None,
         cfg_proxy = None, cfg_webhook = None\<rparr> of
     Inl e \<Rightarrow> False
   | Inr s \<Rightarrow>
       bodies_started (engine_steps (replicate 3 (Invoke :: (unit, unit) call_event)) (engine_idle s)) = 1
       \<and> returned (engine_steps (replicate 3 (Invoke :: (unit, unit) call_event)) (engine_idle s)) =
           [\<lparr>success = False,
             error = Some \<lparr>name = ''Error'', message = ''Check already in progress''\<rparr>\<rparr>,
            \<lparr>success = False,
             error = Some \<lparr>name = ''Error'', message = ''Check already in progress''\<rparr>\<rparr>]
       \<and> executeCheck_enter (s\<lparr>checkInProgress := True\<rparr>) =
           (Some \<lparr>success = False,
                  error = Some \<lparr>name = ''Error'', message = ''Check already in progress''\<rparr>\<rparr>,
            s\<lparr>checkInProgress := True\<rparr>)"
proof -
  let ?sc = "\<lparr>interval = 300000, minInterval = None\<rparr>"
  let ?sys = "\<lparr>cfg_credentials = \<lparr>cred_username = ''user'', cred_password = ''secret''\<rparr>,
         cfg_interval = 300000, cfg_browsers = [chromium], cfg_userAgents = None,
         cfg_proxy = None, cfg_webhook = None\<rparr>"
  let ?rej = "\<lparr>success = False,
             error = Some \<lparr>name = ''Error'', message = ''Check already in progress''\<rparr>\<rparr>"
  obtain s where new: "Scheduler_new ?sc ?sys = Inr s"
    using Scheduler_new_ok [of ?sc ?sys] by (auto simp: or_default_def MIN_INTERVAL_def)
  then have idle: "\<not> checkInProgress s"
    using Scheduler_new_idle by blast
  then have "\<not> checkInProgress s \<and> (2::nat) \<le> 3"
    by simp
  with overlap_guard [where s = s and n = 3 and 'r = unit and 'm = unit]
  have a: "bodies_started (engine_steps (replicate 3 (Invoke :: (unit, unit) call_event)) (engine_idle s)) = 1"
    and b: "returned (engine_steps (replicate 3 (Invoke :: (unit, unit) call_event)) (engine_idle s)) =
          replicate (3 - 1) ?rej"
    by blast+
  have "checkInProgress (s\<lparr>checkInProgress := True\<rparr>)"
    by simp
  with overlap_guard [where s = "s\<lparr>checkInProgress := True\<rparr>" and 'r = unit and 'm = unit]
  have c: "executeCheck_enter (s\<lparr>checkInProgress := True\<rparr>) =
           (Some ?rej, s\<lparr>checkInProgress := True\<rparr>)"
    by blast
  have "replicate (3 - 1) ?rej = [?rej, ?rej]"
    by (simp add: numeral_2_eq_2)
  with a b c show ?thesis
    by (simp only: new sum.case)
qed

section \<open>A delivery failure does not fail the cycle\<close>

lemma getNextProxy_loop_no_error:
  "currentIndex r < length (proxies r) \<Longrightarrow> \<exists>x. fst (getNextProxy_loop a r) = Inr x"
proof (induction a r rule: getNextProxy_loop.induct)
  case (1 attempts r)
  let ?r' = "r\<lparr>currentIndex := (currentIndex r + 1) mod length (proxies r)\<rparr>"
  from "1.prems" have read: "js_index (proxies r) (currentIndex r) = Some (proxies r ! currentIndex r)"
    by (simp add: js_index_def)
  from "1.prems" have "0 < length (proxies r)"
    by auto
  then have next_ok: "currentIndex ?r' < length (proxies ?r')"
    by simp
  show ?case
  proof (cases "attempts < length (proxies r)")
    case False
    then show ?thesis
      by (subst getNextProxy_loop.simps) simp
  next
    case inside: True
    show ?thesis
    proof (cases "getProxyKey (proxies r ! currentIndex r) \<notin> failedProxies ?r'")
      case True
      with inside read show ?thesis
        by (subst getNextProxy_loop.simps) (simp add: Let_def)
    next
      case False
      from "1.IH" [OF inside refl refl read False next_ok]
      obtain x where "fst (getNextProxy_loop (attempts + 1) ?r') = Inr x" ..
      moreover have "getNextProxy_loop attempts r = getNextProxy_loop (attempts + 1) ?r'"
        using inside read False
        by (subst getNextProxy_loop.simps) (simp add: Let_def)
      ultimately show ?thesis by simp
    qed
  qed
qed

lemma getNextProxy_no_error:
  "currentIndex r < length (proxies r) \<Longrightarrow> \<exists>x. fst (getNextProxy r) = Inr x"
  by (simp add: getNextProxy_def Let_def getNextProxy_loop_no_error)

text \<open>The constructor makes the cursors valid, and every check keeps them valid.\<close>

lemma getNextProxy_loop_index:
  "currentIndex r < length (proxies r) \<Longrightarrow>
   currentIndex (snd (getNextProxy_loop a r)) < length (proxies r)"
proof (induction a r rule: getNextProxy_loop.induct)
  case (1 attempts r)
  let ?r' = "r\<lparr>currentIndex := (currentIndex r + 1) mod length (proxies r)\<rparr>"
  from "1.prems" have read: "js_index (proxies r) (currentIndex r) = Some (proxies r ! currentIndex r)"
    by (simp add: js_index_def)
  from "1.prems" have "0 < length (proxies r)"
    by auto
  then have next_ok: "currentIndex ?r' < length (proxies ?r')"
    by simp
  show ?case
  proof (cases "attempts < length (proxies r)")
    case False
    with "1.prems" show ?thesis
      by (subst getNextProxy_loop.simps) simp
  next
    case inside: True
    show ?thesis
    proof (cases "getProxyKey (proxies r ! currentIndex r) \<notin> failedProxies ?r'")
      case True
      with inside read next_ok show ?thesis
        by (subst getNextProxy_loop.simps) (simp add: Let_def)
    next
      case False
      from "1.IH" [OF inside refl refl read False next_ok]
      have "currentIndex (snd (getNextProxy_loop (attempts + 1) ?r')) < length (proxies r)"
        by simp
      moreover have "getNextProxy_loop attempts r = getNextProxy_loop (attempts + 1) ?r'"
        using inside read False
        by (subst getNextProxy_loop.simps) (simp add: Let_def)
      ultimately show ?thesis by simp
    qed
  qed
qed

lemma next_index_less: "(i::nat) < n \<Longrightarrow> Suc i mod n < n"
proof -
  assume "i < n"
  then have "0 < n" by simp
  then show ?thesis by simp
qed

lemma getNextProxy_index:
  "currentIndex r < length (proxies r) \<Longrightarrow>
   currentIndex (snd (getNextProxy r)) < length (proxies r)"
  using getNextProxy_loop_index [of r 0]
  by (auto simp: getNextProxy_def Let_def)

lemma pools_ok_try: "pools_ok s \<Longrightarrow> pools_ok (fst (snd (snd (performCheck_try env s))))"
  unfolding performCheck_try_state
  by (auto simp: pools_ok_def getNextBrowser_def getNextProxy_index next_index_less
      split: option.splits)

lemma pools_ok_performCheck: "pools_ok s \<Longrightarrow> pools_ok (fst (snd (performCheck env s)))"
  using performCheck_state [of env s] pools_ok_try [of s env]
  by (auto simp: pools_ok_def markProxyFailed_def split: option.splits)

lemma pools_ok_executeCheck: "pools_ok s \<Longrightarrow> pools_ok (fst (snd (executeCheck env s)))"
proof (cases "checkInProgress s")
  case True
  assume "pools_ok s"
  with True show ?thesis by (simp add: executeCheck_busy)
next
  case False
  assume "pools_ok s"
  then have "pools_ok (s\<lparr>checkInProgress := True\<rparr>)"
    by (simp add: pools_ok_def)
  from pools_ok_performCheck [OF this, of env] show ?thesis
    by (simp add: executeCheck_idle [OF False] executeCheck_exit_frame pools_ok_def)
qed

lemma pools_ok_new: "Scheduler_new sc sys = Inr s \<Longrightarrow> pools_ok s"
  by (auto simp: Scheduler_new_def Let_def BrowserPool_new_def ProxyRotator_new_def pools_ok_def
      split: sum.splits if_splits option.splits)

text \<open>The outcome of a cycle and the scheduler it leaves do not depend on the endpoint.\<close>

lemma performCheck_try_endpoint:
  "fst (performCheck_try (env\<lparr>webhook_endpoint := ep\<rparr>) s) = fst (performCheck_try env s)
   \<and> fst (snd (performCheck_try (env\<lparr>webhook_endpoint := ep\<rparr>) s)) = fst (snd (performCheck_try env s))
   \<and> fst (snd (snd (performCheck_try (env\<lparr>webhook_endpoint := ep\<rparr>) s)))
       = fst (snd (snd (performCheck_try env s)))"
  by (simp add: performCheck_try_def createSession_def Let_def split_beta
      split: sum.splits option.splits)

lemma performCheck_endpoint:
  "fst (performCheck (env\<lparr>webhook_endpoint := ep\<rparr>) s) = fst (performCheck env s)
   \<and> fst (snd (performCheck (env\<lparr>webhook_endpoint := ep\<rparr>) s)) = fst (snd (performCheck env s))"
  using performCheck_try_endpoint [of ep env s]
  by (simp add: performCheck_def Let_def split_beta split: sum.splits option.splits)

lemma deliver_raises:
  assumes "webhookClient s = Some client" and "mutations \<noteq> []"
    and "send client (webhook_endpoint env) mutations
           (cred_username (cfg_credentials (systemConfig s))) = (Inl e, posted)"
  shows "\<exists>action. deliver env s mutations = posted @ [HandleError ''webhook-delivery'' e action]"
  using assms by (simp add: deliver_def Let_def)

lemma deliver_fields:
  assumes "webhookClient s' = webhookClient s" and "systemConfig s' = systemConfig s"
  shows "deliver env s' mutations = deliver env s mutations"
  unfolding deliver_def assms by (rule refl)

lemma createSession_ok:
  "createSession_error env = None \<Longrightarrow>
   createSession env (Some b) userAgent picked =
     (Inr \<lparr>session_browserType = b, session_userAgent = userAgent,
           session_proxy = map_option server picked\<rparr>,
      [CreateSession (Some b) userAgent picked])"
  by (simp add: createSession_def)

text \<open>
  When no step before the delivery raises, the \<open>try\<close> body runs to its end: it
  delivers, logs out and returns normally, with the session it created.
\<close>

lemma performCheck_try_completes:
  assumes pool: "pool_currentIndex (browserPool s) < length (browsers (browserPool s))"
    and prox: "\<forall>pr. proxyRotator s = Some pr \<longrightarrow> currentIndex pr < length (proxies pr)"
    and steps: "createSession_error env = None" "login_error env = None"
      "navigate_error env = None" "scrape_result env = Inr raw"
  shows "\<exists>session s' pre.
           performCheck_try env s =
             (Inr (), Some session, s', pre @ deliver env s' (parseAll env raw) @ [Logout])
           \<and> webhookClient s' = webhookClient s \<and> systemConfig s' = systemConfig s"
proof -
  from pool have browser: "fst (getNextBrowser (browserPool s))
      = Some (browsers (browserPool s) ! pool_currentIndex (browserPool s))"
    by (simp add: getNextBrowser_def js_index_def Let_def)
  have "\<exists>picked. fst (case proxyRotator s of
               None \<Rightarrow> (Inr None, None)
             | Some pr \<Rightarrow> (let (res, pr') = getNextProxy pr in (res, Some pr'))) = Inr picked"
  proof (cases "proxyRotator s")
    case None
    then show ?thesis by simp
  next
    case (Some pr)
    with prox obtain x where "fst (getNextProxy pr) = Inr x"
      using getNextProxy_no_error [of pr] by blast
    with Some show ?thesis by (simp add: split_beta)
  qed
  then obtain picked where sel: "fst (case proxyRotator s of
               None \<Rightarrow> (Inr None, None)
             | Some pr \<Rightarrow> (let (res, pr') = getNextProxy pr in (res, Some pr'))) = Inr picked" ..
  show ?thesis
    unfolding performCheck_try_def
    by (simp add: Let_def split_beta browser sel createSession_ok steps)
qed

text \<open>
  Claim C7. In a cycle whose steps up to the scraping succeed and whose delivery
  raises (the webhook client is configured, there is at least one mutation, and
  \<open>send\<close> raises \<open>e\<close> after the posts and sleeps \<open>posted\<close>), \<open>performCheck\<close> hands \<open>e\<close>
  to the error handler and does not raise: the logout and the closing of the session
  follow, \<open>performCheck\<close> returns normally and \<open>executeCheck\<close> reports success. In every
  cycle the outcome of \<open>performCheck\<close> is the same whatever the endpoint answers. The
  cursors of the scheduler's pools are valid (\<open>pools_ok\<close>) in every scheduler the
  constructor returns and after every check.
\<close>

theorem delivery_failure_caught:
  "(pools_ok s
    \<and> createSession_error env = None \<and> login_error env = None
    \<and> navigate_error env = None \<and> scrape_result env = Inr raw
    \<and> webhookClient s = Some client \<and> parseAll env raw \<noteq> []
    \<and> send client (webhook_endpoint env) (parseAll env raw)
          (cred_username (cfg_credentials (systemConfig s))) = (Inl e, posted)
    \<longrightarrow>
      fst (performCheck env s) = Inr ()
      \<and> (\<exists>pre action. snd (snd (performCheck env s)) =
            pre @ posted @ [HandleError ''webhook-delivery'' e action, Logout, CloseSession])
      \<and> (\<not> checkInProgress s \<longrightarrow> success (fst (executeCheck env s))))
   \<and> fst (performCheck (env\<lparr>webhook_endpoint := ep\<rparr>) s) = fst (performCheck env s)
   \<and> (Scheduler_new sc sys = Inr s \<longrightarrow> pools_ok s)
   \<and> (pools_ok s \<longrightarrow> pools_ok (fst (snd (executeCheck env s))))"
proof (intro conjI impI)
  show "fst (performCheck (env\<lparr>webhook_endpoint := ep\<rparr>) s) = fst (performCheck env s)"
    using performCheck_endpoint [of ep env s] by blast
next
  assume "Scheduler_new sc sys = Inr s"
  then show "pools_ok s" by (rule pools_ok_new)
next
  assume "pools_ok s"
  then show "pools_ok (fst (snd (executeCheck env s)))" by (rule pools_ok_executeCheck)
next
  assume a: "pools_ok s
    \<and> createSession_error env = None \<and> login_error env = None
    \<and> navigate_error env = None \<and> scrape_result env = Inr raw
    \<and> webhookClient s = Some client \<and> parseAll env raw \<noteq> []
    \<and> send client (webhook_endpoint env) (parseAll env raw)
          (cred_username (cfg_credentials (systemConfig s))) = (Inl e, posted)"
  then have pool: "pool_currentIndex (browserPool s) < length (browsers (browserPool s))"
    and prox: "\<forall>pr. proxyRotator s = Some pr \<longrightarrow> currentIndex pr < length (proxies pr)"
    by (auto simp: pools_ok_def)
  from a pool prox obtain session s' pre where body:
    "performCheck_try env s =
       (Inr (), Some session, s', pre @ deliver env s' (parseAll env raw) @ [Logout])"
    and same: "webhookClient s' = webhookClient s" "systemConfig s' = systemConfig s"
    using performCheck_try_completes [of s env raw] by blast
  from a obtain action where
    "deliver env s (parseAll env raw) = posted @ [HandleError ''webhook-delivery'' e action]"
    using deliver_raises [of s client "parseAll env raw" env e posted] by blast
  then have "deliver env s' (parseAll env raw) = posted @ [HandleError ''webhook-delivery'' e action]"
    by (simp only: deliver_fields [OF same])
  with body have run: "performCheck env s =
      (Inr (), s', pre @ posted @ [HandleError ''webhook-delivery'' e action, Logout, CloseSession])"
    by (simp add: performCheck_def)
  show ok: "fst (performCheck env s) = Inr ()"
    by (simp add: run)
  show "\<exists>pre action. snd (snd (performCheck env s)) =
            pre @ posted @ [HandleError ''webhook-delivery'' e action, Logout, CloseSession]"
    using run by auto
  show "success (fst (executeCheck env s))" if idle: "\<not> checkInProgress s"
  proof -
    let ?s1 = "s\<lparr>checkInProgress := True\<rparr>"
    from pool prox
    have a1: "pool_currentIndex (browserPool ?s1) < length (browsers (browserPool ?s1))
      \<and> (\<forall>pr. proxyRotator ?s1 = Some pr \<longrightarrow> currentIndex pr < length (proxies pr))"
      by simp
    from a a1 obtain session1 s1' pre1 where
      "performCheck_try env ?s1 =
         (Inr (), Some session1, s1', pre1 @ deliver env s1' (parseAll env raw) @ [Logout])"
      using performCheck_try_completes [of ?s1 env raw] by blast
    then have "fst (performCheck env ?s1) = Inr ()"
      by (simp add: performCheck_def)
    then show ?thesis
      by (simp add: executeCheck_idle [OF idle] executeCheck_exit_def)
  qed
qed

theorem delivery_failure_caught_witness:
  "case Scheduler_new \<lparr>interval = 300000, minInterval = None\<rparr>
        \<lparr>cfg_credentials = \<lparr>cred_username = ''user'', cred_password = ''secret''\<rparr>,
         cfg_interval = 300000, cfg_browsers = [chromium], cfg_userAgents = None,
         cfg_proxy = None,
         cfg_webhook = Some \<lparr>webhook_url = ''https://hook.example/bca'',
                              webhook_retryAttempts = Some 2\<rparr>\<rparr> of
     Inl e \<Rightarrow> False
   | Inr s \<Rightarrow>
       fst (performCheck
              \<lparr>createSession_error = None, login_error = None, navigate_error = None,
               scrape_result = Inr [''row''], parseAll = (\<lambda>rows. rows),
               webhook_endpoint = (\<lambda>i. Responded 503 ''Service Unavailable'')\<rparr> s) = Inr ()
       \<and> success (fst (executeCheck
              \<lparr>createSession_error = None, login_error = None, navigate_error = None,
               scrape_result = Inr [''row''], parseAll = (\<lambda>rows. rows),
               webhook_endpoint = (\<lambda>i. Responded 503 ''Service Unavailable'')\<rparr> s))"
proof -
  let ?sc = "\<lparr>interval = 300000, minInterval = None\<rparr>"
  let ?sys = "\<lparr>cfg_credentials = \<lparr>cred_username = ''user'', cred_password = ''secret''\<rparr>,
         cfg_interval = 300000, cfg_browsers = [chromium], cfg_userAgents = None,
         cfg_proxy = None,
         cfg_webhook = Some \<lparr>webhook_url = ''https://hook.example/bca'',
                              webhook_retryAttempts = Some 2\<rparr>\<rparr>"
  let ?ep = "\<lambda>i::nat. Responded 503 ''Service Unavailable''"
  let ?env = "\<lparr>createSession_error = None, login_error = None, navigate_error = None,
               scrape_result = Inr [''row''], parseAll = (\<lambda>rows. rows),
               webhook_endpoint = ?ep\<rparr>"
  let ?client = "\<lparr>url = ''https://hook.example/bca'', retryAttempts = Some 2\<rparr>"
  let ?e = "\<lparr>name = ''Error'',
             message = ''Webhook delivery failed after 2 attempts: Webhook request failed with status 503: Service Unavailable''\<rparr>"
  obtain s where new: "Scheduler_new ?sc ?sys = Inr s"
    using Scheduler_new_ok [of ?sc ?sys] by (auto simp: or_default_def MIN_INTERVAL_def)
  then have fields: "browserPool s = \<lparr>browsers = [chromium], pool_currentIndex = 0\<rparr>"
    "proxyRotator s = None" "webhookClient s = Some ?client" "systemConfig s = ?sys"
    "\<not> checkInProgress s"
    by (auto simp: Scheduler_new_def Let_def BrowserPool_new_def or_default_def MIN_INTERVAL_def)
  have "fst (send ?client ?ep [''row''] ''user'') = Inl ?e"
    by code_simp
  then have sent: "send ?client ?ep [''row''] ''user'' = (Inl ?e, snd (send ?client ?ep [''row''] ''user''))"
    by (simp add: prod_eq_iff)
  have "pools_ok s
    \<and> createSession_error ?env = None \<and> login_error ?env = None
    \<and> navigate_error ?env = None \<and> scrape_result ?env = Inr [''row'']
    \<and> webhookClient s = Some ?client \<and> parseAll ?env [''row''] \<noteq> []
    \<and> send ?client (webhook_endpoint ?env) (parseAll ?env [''row''])
          (cred_username (cfg_credentials (systemConfig s)))
        = (Inl ?e, snd (send ?client ?ep [''row''] ''user''))"
    using sent by (simp add: fields pools_ok_def)
  with delivery_failure_caught [where s = s and env = ?env and raw = "[''row'']"
         and client = ?client and e = ?e
         and posted = "snd (send ?client ?ep [''row''] ''user'')"] fields(5)
  have "fst (performCheck ?env s) = Inr ()" and "success (fst (executeCheck ?env s))"
    by blast+
  then show ?thesis
    by (simp only: new sum.case simp_thms)
qed

section \<open>The spacing of the cycles\<close>

lemma timer_fires_idle:
  assumes "timers L = [(h, due)]" and "now L \<le> due" and "\<not> checkInProgress (sched L)"
  shows "timer_fires L =
     L\<lparr>now := due, timers := [], started_at := started_at L @ [due],
       sched := (sched L)\<lparr>checkInProgress := True\<rparr>\<rparr>"
  using assms by (simp add: timer_fires_def executeCheck_enter_def max_def)

lemma check_completes_running:
  assumes busy: "checkInProgress (sched L)" and run: "\<not> stopped (sched L)"
  shows "\<exists>s'. check_completes d env L =
           L\<lparr>now := now L + d,
             sched := s'\<lparr>timerId := Some (next_handle L)\<rparr>,
             timers := timers L
               @ [(next_handle L, now L + d + timer_delay (interval (config (sched L))))],
             next_handle := next_handle L + 1,
             delays := delays L @ [interval (config (sched L))]\<rparr>
         \<and> \<not> checkInProgress s' \<and> \<not> stopped s' \<and> config s' = config (sched L)"
proof -
  obtain bp ua pr where frame: "fst (snd (performCheck env (sched L)))
      = (sched L)\<lparr>browserPool := bp, userAgentRotator := ua, proxyRotator := pr\<rparr>"
    using performCheck_frame by blast
  let ?s3 = "(sched L)\<lparr>browserPool := bp, userAgentRotator := ua, proxyRotator := pr,
                      checkInProgress := False\<rparr>"
  have "check_completes d env L =
           L\<lparr>now := now L + d,
             sched := ?s3\<lparr>timerId := Some (next_handle L)\<rparr>,
             timers := timers L
               @ [(next_handle L, now L + d + timer_delay (interval (config (sched L))))],
             next_handle := next_handle L + 1,
             delays := delays L @ [interval (config (sched L))]\<rparr>"
    using busy run
    by (simp add: check_completes_def split_beta Let_def frame executeCheck_exit_frame
        callback_continues_def scheduleNextCheck_def setTimeout_def)
  moreover have "\<not> checkInProgress ?s3 \<and> \<not> stopped ?s3 \<and> config ?s3 = config (sched L)"
    using run by simp
  ultimately show ?thesis by blast
qed

text \<open>
  One cycle: the only pending timer fires when it is due, the check takes \<open>d\<close>
  milliseconds, and the callback then calls \<open>setTimeout\<close> with the interval.
\<close>

lemma one_cycle:
  assumes t: "timers L = [(h, due)]" and n: "now L \<le> due"
    and idle: "\<not> checkInProgress (sched L)" and run: "\<not> stopped (sched L)"
  shows "\<exists>h'. timers (check_completes d env (timer_fires L))
                 = [(h', due + d + timer_delay (interval (config (sched L))))]"
    and "now (check_completes d env (timer_fires L)) = due + d"
    and "\<not> checkInProgress (sched (check_completes d env (timer_fires L)))"
    and "\<not> stopped (sched (check_completes d env (timer_fires L)))"
    and "config (sched (check_completes d env (timer_fires L))) = config (sched L)"
    and "started_at (check_completes d env (timer_fires L)) = started_at L @ [due]"
    and "delays (check_completes d env (timer_fires L))
           = delays L @ [interval (config (sched L))]"
proof -
  let ?L1 = "L\<lparr>now := due, timers := [], started_at := started_at L @ [due],
       sched := (sched L)\<lparr>checkInProgress := True\<rparr>\<rparr>"
  have f: "timer_fires L = ?L1"
    by (rule timer_fires_idle [OF t n idle])
  have "checkInProgress (sched ?L1)" and "\<not> stopped (sched ?L1)"
    using run by simp_all
  from check_completes_running [OF this, of d env]
  obtain s' where c: "check_completes d env ?L1 =
           ?L1\<lparr>now := now ?L1 + d,
             sched := s'\<lparr>timerId := Some (next_handle ?L1)\<rparr>,
             timers := timers ?L1
               @ [(next_handle ?L1, now ?L1 + d + timer_delay (interval (config (sched ?L1))))],
             next_handle := next_handle ?L1 + 1,
             delays := delays ?L1 @ [interval (config (sched ?L1))]\<rparr>"
    and s': "\<not> checkInProgress s'" "\<not> stopped s'" "config s' = config (sched ?L1)"
    by blast
  show "\<exists>h'. timers (check_completes d env (timer_fires L))
                 = [(h', due + d + timer_delay (interval (config (sched L))))]"
    by (simp add: f c)
  show "now (check_completes d env (timer_fires L)) = due + d"
    by (simp add: f c)
  show "\<not> checkInProgress (sched (check_completes d env (timer_fires L)))"
    using s' by (simp add: f c)
  show "\<not> stopped (sched (check_completes d env (timer_fires L)))"
    using s' by (simp add: f c)
  show "config (sched (check_completes d env (timer_fires L))) = config (sched L)"
    using s' by (simp add: f c)
  show "started_at (check_completes d env (timer_fires L)) = started_at L @ [due]"
    by (simp add: f c)
  show "delays (check_completes d env (timer_fires L))
           = delays L @ [interval (config (sched L))]"
    by (simp add: f c)
qed

lemma cycles_run:
  assumes "timers L = [(h, due)]" and "now L \<le> due"
    and "\<not> checkInProgress (sched L)" and "\<not> stopped (sched L)"
  shows "started_at (loop_steps (cycles ds) L) =
           started_at L
           @ fixed_delay_starts due (timer_delay (interval (config (sched L)))) (map fst ds)
         \<and> delays (loop_steps (cycles ds) L) =
           delays L @ replicate (length ds) (interval (config (sched L)))"
  using assms
proof (induction ds arbitrary: L h due)
  case Nil
  then show ?case by (simp add: loop_steps_def cycles_def)
next
  case (Cons c ds)
  obtain d env where c: "c = (d, env)" by (cases c)
  let ?L' = "check_completes d env (timer_fires L)"
  let ?i = "timer_delay (interval (config (sched L)))"
  from one_cycle [OF Cons.prems, of d env]
  obtain h' where t': "timers ?L' = [(h', due + d + ?i)]"
    and n': "now ?L' = due + d"
    and i': "\<not> checkInProgress (sched ?L')" and r': "\<not> stopped (sched ?L')"
    and c': "config (sched ?L') = config (sched L)"
    and s': "started_at ?L' = started_at L @ [due]"
    and d': "delays ?L' = delays L @ [interval (config (sched L))]"
    by blast
  from n' have le: "now ?L' \<le> due + d + ?i" by simp
  have "loop_steps (cycles (c # ds)) L = loop_steps (cycles ds) ?L'"
    by (simp add: loop_steps_def cycles_def c)
  then show ?case
    using Cons.IH [OF t' le i' r'] by (simp add: c c' s' d' replicate_app_Cons_same)
qed

lemma timer_delay_zero: "timer_delay 0 = 1"
  by (simp add: timer_delay_def)

lemma timer_delay_in_range: "1 \<le> i \<Longrightarrow> i \<le> 2147483647 \<Longrightarrow> timer_delay i = i"
  by (simp add: timer_delay_def TIMEOUT_MAX_def)

lemma timer_delay_above: "2147483647 < i \<Longrightarrow> timer_delay i = 1"
  by (simp add: timer_delay_def TIMEOUT_MAX_def)

lemma start_fresh:
  assumes "timerId s = None"
  shows "start (event_loop_new s t) =
     \<lparr>sched = s\<lparr>stopped := False, timerId := Some 1\<rparr>, now = t, timers = [(1, t + 1)],
      next_handle = 2, delays = [0], started_at = []\<rparr>"
  using assms
  by (simp add: start_def event_loop_new_def scheduleNextCheck_def setTimeout_def Let_def
      timer_delay_zero)

lemma started_cycles:
  assumes "timerId s = None" and "\<not> checkInProgress s"
  shows "started_at (loop_steps (Start # cycles ds) (event_loop_new s t)) =
           fixed_delay_starts (t + 1) (timer_delay (interval (config s))) (map fst ds)"
    and "delays (loop_steps (Start # cycles ds) (event_loop_new s t)) =
           0 # replicate (length ds) (interval (config s))"
proof -
  let ?L = "\<lparr>sched = s\<lparr>stopped := False, timerId := Some 1\<rparr>, now = t, timers = [(1, t + 1)],
      next_handle = 2, delays = [0], started_at = []\<rparr>"
  have run: "loop_steps (Start # cycles ds) (event_loop_new s t) = loop_steps (cycles ds) ?L"
    by (simp add: loop_steps_def start_fresh [OF assms(1)])
  have "started_at (loop_steps (cycles ds) ?L) =
           started_at ?L
           @ fixed_delay_starts (t + 1) (timer_delay (interval (config (sched ?L)))) (map fst ds)
         \<and> delays (loop_steps (cycles ds) ?L) =
           delays ?L @ replicate (length ds) (interval (config (sched ?L)))"
    using assms(2) by (intro cycles_run [of ?L 1 "t + 1"]) simp_all
  then show "started_at (loop_steps (Start # cycles ds) (event_loop_new s t)) =
           fixed_delay_starts (t + 1) (timer_delay (interval (config s))) (map fst ds)"
    and "delays (loop_steps (Start # cycles ds) (event_loop_new s t)) =
           0 # replicate (length ds) (interval (config s))"
    by (simp_all add: run)
qed

lemma fixed_delay_starts_length [simp]: "length (fixed_delay_starts t i ds) = length ds"
  by (induction ds arbitrary: t) simp_all

lemma fixed_delay_starts_step:
  "Suc k < length ds \<Longrightarrow>
   fixed_delay_starts t i ds ! Suc k = fixed_delay_starts t i ds ! k + ds ! k + i"
proof (induction ds arbitrary: t k)
  case Nil
  then show ?case by simp
next
  case (Cons d ds)
  show ?case
  proof (cases k)
    case 0
    with Cons.prems show ?thesis by (cases ds) simp_all
  next
    case (Suc j)
    with Cons.prems Cons.IH [of j "t + d + i"] show ?thesis by simp
  qed
qed

text \<open>A stopped scheduler sets no timer, whatever happens, until it is started again.\<close>

lemma stopped_step:
  assumes "stopped (sched L)" and "ev \<noteq> Start"
  shows "stopped (sched (loop_step ev L)) \<and> set (timers (loop_step ev L)) \<subseteq> set (timers L)"
proof (cases ev)
  case Start
  with assms show ?thesis by simp
next
  case Stop
  with assms show ?thesis
    by (auto simp: stop_def clearTimeout_def Let_def split: option.splits)
next
  case TimerFires
  with assms show ?thesis
    by (auto simp: timer_fires_def executeCheck_enter_def callback_continues_def Let_def
        split: option.splits)
next
  case (CheckCompletes d env)
  obtain bp ua pr where frame: "fst (snd (performCheck env (sched L)))
      = (sched L)\<lparr>browserPool := bp, userAgentRotator := ua, proxyRotator := pr\<rparr>"
    using performCheck_frame by blast
  from assms CheckCompletes show ?thesis
    by (simp add: check_completes_def split_beta Let_def frame executeCheck_exit_frame
        callback_continues_def)
qed

lemma stopped_steps:
  "stopped (sched L) \<Longrightarrow> Start \<notin> set events \<Longrightarrow>
   stopped (sched (loop_steps events L)) \<and> set (timers (loop_steps events L)) \<subseteq> set (timers L)"
proof (induction events arbitrary: L)
  case Nil
  then show ?case by (simp add: loop_steps_def)
next
  case (Cons ev events)
  from Cons.prems have ev: "ev \<noteq> Start" and rest: "Start \<notin> set events" by auto
  from stopped_step [OF Cons.prems(1) ev]
  have s1: "stopped (sched (loop_step ev L))"
    and t1: "set (timers (loop_step ev L)) \<subseteq> set (timers L)"
    by simp_all
  have "loop_steps (ev # events) L = loop_steps events (loop_step ev L)"
    by (simp add: loop_steps_def)
  with Cons.IH [OF s1 rest] t1 show ?case by auto
qed

text \<open>
  Claim C9, as stated, fails: the callback of the timer awaits the check and only then
  sets the next timer, so the spacing is measured from the end of the check. With an
  interval of 300000 ms and a first check that takes 100 ms, the first cycle starts at
  1 ms and the second at 300101 ms, not one interval after the first (300001 ms).
\<close>

theorem fixed_rate_counterexample:
  "case Scheduler_new \<lparr>interval = 300000, minInterval = None\<rparr>
        \<lparr>cfg_credentials = \<lparr>cred_username = ''user'', cred_password = ''secret''\<rparr>,
         cfg_interval = 300000, cfg_browsers = [chromium], cfg_userAgents = None,
         cfg_proxy = None, cfg_webhook = None\<rparr> of
     Inl e \<Rightarrow> False
   | Inr s \<Rightarrow>
       started_at (loop_steps
          (Start # cycles
             [(100, \<lparr>createSession_error = None, login_error = None, navigate_error = None,
                    scrape_result = Inr [], parseAll = (\<lambda>rows. []),
                    webhook_endpoint = (\<lambda>i. Responded 200 ''OK'')\<rparr>),
              (100, \<lparr>createSession_error = None, login_error = None, navigate_error = None,
                    scrape_result = Inr ([] :: unit list), parseAll = (\<lambda>rows. ([] :: unit list)),
                    webhook_endpoint = (\<lambda>i. Responded 200 ''OK'')\<rparr>)])
          (event_loop_new s 0))
         = [1, 300101]
       \<and> fixed_rate_starts 1 (interval (config s)) 2 = [1, 300001]"
proof -
  let ?sc = "\<lparr>interval = 300000, minInterval = None\<rparr>"
  let ?sys = "\<lparr>cfg_credentials = \<lparr>cred_username = ''user'', cred_password = ''secret''\<rparr>,
         cfg_interval = 300000, cfg_browsers = [chromium], cfg_userAgents = None,
         cfg_proxy = None, cfg_webhook = None\<rparr>"
  let ?env = "\<lparr>createSession_error = None, login_error = None, navigate_error = None,
                    scrape_result = Inr ([] :: unit list), parseAll = (\<lambda>rows. ([] :: unit list)),
                    webhook_endpoint = (\<lambda>i. Responded 200 ''OK'')\<rparr>"
  obtain s where new: "Scheduler_new ?sc ?sys = Inr s"
    using Scheduler_new_ok [of ?sc ?sys] by (auto simp: or_default_def MIN_INTERVAL_def)
  from Scheduler_new_idle [OF new]
  have idle: "timerId s = None" "\<not> checkInProgress s" and cfg: "config s = ?sc"
    by simp_all
  have "started_at (loop_steps (Start # cycles [(100, ?env), (100, ?env)]) (event_loop_new s 0))
        = [1, 300101]"
    by (simp add: started_cycles(1) [OF idle] cfg timer_delay_in_range)
  moreover have "fixed_rate_starts 1 (interval (config s)) 2 = [1, 300001]"
    by (simp add: fixed_rate_starts_def cfg numeral_2_eq_2)
  ultimately show ?thesis
    by (simp only: new sum.case simp_thms)
qed

text \<open>
  Claim C9, amended. After \<open>start\<close> on an idle scheduler the first cycle is scheduled
  with a delay argument of 0, which the timer runs after 1 ms. Each subsequent cycle
  is scheduled, when the previous cycle's check has completed, with the interval as
  the delay argument: when the interval is at most 2147483647 ms, a cycle starts at
  the start of the one before plus its duration plus the interval, and when the
  interval is above 2147483647 ms the timer runs after 1 ms, so a cycle starts at the
  start of the one before plus its duration plus 1 ms. A set \<open>stopped\<close> flag prevents
  any further cycle from being scheduled: \<open>scheduleNextCheck\<close> does nothing, and no
  timer is added by any sequence of events without a new \<open>start\<close>.
\<close>

theorem fixed_delay_schedule:
  fixes ds :: "(nat \<times> ('r, 'm) collaborators) list" and events :: "('r, 'm) loop_event list"
  shows
  "(timerId s = None \<and> \<not> checkInProgress s \<longrightarrow>
      delays (loop_steps (Start # cycles ds) (event_loop_new s t))
          = 0 # replicate (length ds) (interval (config s))
      \<and> timers (start (event_loop_new s t)) = [(1, t + 1)]
      \<and> started_at (loop_steps (Start # cycles ds) (event_loop_new s t))
          = fixed_delay_starts (t + 1) (timer_delay (interval (config s))) (map fst ds)
      \<and> (ds \<noteq> [] \<longrightarrow>
            started_at (loop_steps (Start # cycles ds) (event_loop_new s t)) ! 0 = t + 1)
      \<and> (1 \<le> interval (config s) \<and> interval (config s) \<le> 2147483647 \<longrightarrow>
           (\<forall>k. Suc k < length ds \<longrightarrow>
              started_at (loop_steps (Start # cycles ds) (event_loop_new s t)) ! Suc k
              = started_at (loop_steps (Start # cycles ds) (event_loop_new s t)) ! k
                + fst (ds ! k) + interval (config s)))
      \<and> (2147483647 < interval (config s) \<longrightarrow>
           (\<forall>k. Suc k < length ds \<longrightarrow>
              started_at (loop_steps (Start # cycles ds) (event_loop_new s t)) ! Suc k
              = started_at (loop_steps (Start # cycles ds) (event_loop_new s t)) ! k
                + fst (ds ! k) + 1)))
   \<and> (stopped (sched L) \<longrightarrow> scheduleNextCheck delay L = L)
   \<and> (stopped (sched L) \<and> Start \<notin> set events \<longrightarrow>
        stopped (sched (loop_steps events L))
        \<and> set (timers (loop_steps events L)) \<subseteq> set (timers L))"
proof -
  let ?S = "started_at (loop_steps (Start # cycles ds) (event_loop_new s t))"
  have sched: "delays (loop_steps (Start # cycles ds) (event_loop_new s t))
          = 0 # replicate (length ds) (interval (config s))
      \<and> timers (start (event_loop_new s t)) = [(1, t + 1)]
      \<and> ?S = fixed_delay_starts (t + 1) (timer_delay (interval (config s))) (map fst ds)
      \<and> (ds \<noteq> [] \<longrightarrow> ?S ! 0 = t + 1)
      \<and> (1 \<le> interval (config s) \<and> interval (config s) \<le> 2147483647 \<longrightarrow>
           (\<forall>k. Suc k < length ds \<longrightarrow> ?S ! Suc k = ?S ! k + fst (ds ! k) + interval (config s)))
      \<and> (2147483647 < interval (config s) \<longrightarrow>
           (\<forall>k. Suc k < length ds \<longrightarrow> ?S ! Suc k = ?S ! k + fst (ds ! k) + 1))"
    if a: "timerId s = None \<and> \<not> checkInProgress s"
  proof -
    from a have run: "?S = fixed_delay_starts (t + 1) (timer_delay (interval (config s))) (map fst ds)"
      using started_cycles(1) [of s ds t] by simp
    from a have c1: "delays (loop_steps (Start # cycles ds) (event_loop_new s t))
          = 0 # replicate (length ds) (interval (config s))"
      using started_cycles(2) [of s ds t] by simp
    from a have c2: "timers (start (event_loop_new s t)) = [(1, t + 1)]"
      by (simp add: start_fresh)
    have c4: "ds \<noteq> [] \<longrightarrow> ?S ! 0 = t + 1"
    proof
      assume "ds \<noteq> []"
      then obtain d rest where "map fst ds = d # rest"
        by (cases ds) auto
      then show "?S ! 0 = t + 1" by (simp add: run)
    qed
    have step: "?S ! Suc k = ?S ! k + fst (ds ! k) + timer_delay (interval (config s))"
      if "Suc k < length ds" for k
      using that
        fixed_delay_starts_step [of k "map fst ds" "t + 1" "timer_delay (interval (config s))"]
      by (simp add: run)
    have c5: "1 \<le> interval (config s) \<and> interval (config s) \<le> 2147483647 \<longrightarrow>
           (\<forall>k. Suc k < length ds \<longrightarrow> ?S ! Suc k = ?S ! k + fst (ds ! k) + interval (config s))"
      using step by (auto simp: timer_delay_in_range)
    have c6: "2147483647 < interval (config s) \<longrightarrow>
           (\<forall>k. Suc k < length ds \<longrightarrow> ?S ! Suc k = ?S ! k + fst (ds ! k) + 1)"
      using step by (auto simp: timer_delay_above)
    show ?thesis
      by (intro conjI) (fact c1 c2 run c4 c5 c6)+
  qed
  have off: "scheduleNextCheck delay L = L" if "stopped (sched L)"
    using that by (simp add: scheduleNextCheck_def)
  have stay: "stopped (sched (loop_steps events L))
        \<and> set (timers (loop_steps events L)) \<subseteq> set (timers L)"
    if "stopped (sched L) \<and> Start \<notin> set events"
    using that stopped_steps [of L events] by simp
  from sched off stay show ?thesis
    by (intro conjI impI) blast+
qed

theorem fixed_delay_schedule_witness:
  "(case Scheduler_new \<lparr>interval = 300000, minInterval = None\<rparr>
        \<lparr>cfg_credentials = \<lparr>cred_username = ''user'', cred_password = ''secret''\<rparr>,
         cfg_interval = 300000, cfg_browsers = [chromium], cfg_userAgents = None,
         cfg_proxy = None, cfg_webhook = None\<rparr> of
     Inl e \<Rightarrow> False
   | Inr s \<Rightarrow>
       started_at (loop_steps
          (Start # cycles
             [(100, \<lparr>createSession_error = None, login_error = None, navigate_error = None,
                    scrape_result = Inr [], parseAll = (\<lambda>rows. []),
                    webhook_endpoint = (\<lambda>i. Responded 200 ''OK'')\<rparr>),
              (250, \<lparr>createSession_error = None, login_error = None, navigate_error = None,
                    scrape_result = Inr ([] :: unit list), parseAll = (\<lambda>rows. ([] :: unit list)),
                    webhook_endpoint = (\<lambda>i. Responded 200 ''OK'')\<rparr>)])
          (event_loop_new s 0)) ! 1
         = 300101
       \<and> timers (loop_steps ([TimerFires] :: (unit, unit) loop_event list)
                   (stop (start (event_loop_new s 0)))) = [])
   \<and> (case Scheduler_new \<lparr>interval = 3000000000, minInterval = None\<rparr>
        \<lparr>cfg_credentials = \<lparr>cred_username = ''user'', cred_password = ''secret''\<rparr>,
         cfg_interval = 3000000000, cfg_browsers = [chromium], cfg_userAgents = None,
         cfg_proxy = None, cfg_webhook = None\<rparr> of
     Inl e \<Rightarrow> False
   | Inr s \<Rightarrow>
       started_at (loop_steps
          (Start # cycles
             [(100, \<lparr>createSession_error = None, login_error = None, navigate_error = None,
                    scrape_result = Inr [], parseAll = (\<lambda>rows. []),
                    webhook_endpoint = (\<lambda>i. Responded 200 ''OK'')\<rparr>),
              (250, \<lparr>createSession_error = None, login_error = None, navigate_error = None,
                    scrape_result = Inr ([] :: unit list), parseAll = (\<lambda>rows. ([] :: unit list)),
                    webhook_endpoint = (\<lambda>i. Responded 200 ''OK'')\<rparr>)])
          (event_loop_new s 0)) ! 1
         = 102)"
proof -
  let ?sc = "\<lparr>interval = 300000, minInterval = None\<rparr>"
  let ?sys = "\<lparr>cfg_credentials = \<lparr>cred_username = ''user'', cred_password = ''secret''\<rparr>,
         cfg_interval = 300000, cfg_browsers = [chromium], cfg_userAgents = None,
         cfg_proxy = None, cfg_webhook = None\<rparr>"
  let ?big = "\<lparr>interval = 3000000000, minInterval = None\<rparr>"
  let ?bigsys = "\<lparr>cfg_credentials = \<lparr>cred_username = ''user'', cred_password = ''secret''\<rparr>,
         cfg_interval = 3000000000, cfg_browsers = [chromium], cfg_userAgents = None,
         cfg_proxy = None, cfg_webhook = None\<rparr>"
  let ?env = "\<lparr>createSession_error = None, login_error = None, navigate_error = None,
                    scrape_result = Inr ([] :: unit list), parseAll = (\<lambda>rows. ([] :: unit list)),
                    webhook_endpoint = (\<lambda>i. Responded 200 ''OK'')\<rparr>"
  let ?ds = "[(100, ?env), (250, ?env)]"
  have two: "Suc 0 < length ?ds" and d0: "fst (?ds ! 0) = 100"
    by simp_all
  obtain s where new: "Scheduler_new ?sc ?sys = Inr s"
    using Scheduler_new_ok [of ?sc ?sys] by (auto simp: or_default_def MIN_INTERVAL_def)
  from Scheduler_new_idle [OF new]
  have idle: "timerId s = None \<and> \<not> checkInProgress s" and cfg: "config s = ?sc"
    by simp_all
  let ?L = "stop (start (event_loop_new s 0))"
  let ?S = "started_at (loop_steps (Start # cycles ?ds) (event_loop_new s 0))"
  have L: "stopped (sched ?L) \<and> timers ?L = []"
    using idle
    by (simp add: start_fresh stop_def clearTimeout_def Let_def)
  note th = fixed_delay_schedule [where s = s and t = 0 and ds = ?ds and L = ?L
      and events = "[TimerFires]"]
  have range: "1 \<le> interval (config s) \<and> interval (config s) \<le> 2147483647"
    by (simp add: cfg)
  note run = th [THEN conjunct1, THEN mp, OF idle]
  note rest = run [THEN conjunct2, THEN conjunct2, THEN conjunct2]
  from rest [THEN conjunct1] have s0: "?S ! 0 = 1"
    by simp
  from rest [THEN conjunct2, THEN conjunct1, THEN mp, OF range, THEN spec, THEN mp, OF two]
  have "?S ! Suc 0 = ?S ! 0 + fst (?ds ! 0) + interval (config s)" .
  then have a: "?S ! 1 = 300101"
    by (simp add: s0 cfg)
  have "stopped (sched ?L) \<and> Start \<notin> set ([TimerFires] :: (unit, unit) loop_event list)"
    using L by simp
  from th [THEN conjunct2, THEN conjunct2, THEN mp, OF this]
  have "set (timers (loop_steps ([TimerFires] :: (unit, unit) loop_event list) ?L))
                 \<subseteq> set (timers ?L)"
    by (rule conjunct2)
  with L have b: "timers (loop_steps ([TimerFires] :: (unit, unit) loop_event list) ?L) = []"
    by simp
  obtain s2 where new2: "Scheduler_new ?big ?bigsys = Inr s2"
    using Scheduler_new_ok [of ?big ?bigsys] by (auto simp: or_default_def MIN_INTERVAL_def)
  from Scheduler_new_idle [OF new2]
  have idle2: "timerId s2 = None \<and> \<not> checkInProgress s2" and cfg2: "config s2 = ?big"
    by simp_all
  let ?S2 = "started_at (loop_steps (Start # cycles ?ds) (event_loop_new s2 0))"
  note th2 = fixed_delay_schedule [where s = s2 and t = 0 and ds = ?ds]
  have above: "2147483647 < interval (config s2)"
    by (simp add: cfg2)
  note run2 = th2 [THEN conjunct1, THEN mp, OF idle2]
  note rest2 = run2 [THEN conjunct2, THEN conjunct2, THEN conjunct2]
  from rest2 [THEN conjunct1] have s20: "?S2 ! 0 = 1"
    by simp
  from rest2 [THEN conjunct2, THEN conjunct2, THEN mp, OF above, THEN spec, THEN mp, OF two]
  have "?S2 ! Suc 0 = ?S2 ! 0 + fst (?ds ! 0) + 1" .
  then have c: "?S2 ! 1 = 102"
    by (simp add: s20)
  from a b c show ?thesis
    by (simp only: new new2 sum.case simp_thms)
qed

end
